theory Spec2Isabelle
  imports Main "HOL-Library.Multiset"
begin

section \<open>The game-session scheduler of src/server/GameManager.ts\<close>

text \<open>
  A shallow embedding of the class \<open>GameManager\<close>. The scheduler owns a list of
  sessions (\<open>GameServer\<close> objects), a playlist of maps and a seeded shuffle source.
  The sessions are mutable objects that the scheduler's arrays share, so the model keeps
  them in a store and the arrays hold references into it. Each method takes the state
  and returns what the call yields (\<open>Inr\<close> the value returned, \<open>Inl\<close> the exception
  thrown), the state it leaves and the list of effects it performed on the outside
  world (console lines, calls into sessions, sessions constructed), in the order of
  their occurrence. A call that never returns is \<open>None\<close>.
\<close>

subsection \<open>Data\<close>

type_synonym GameID = string
type_synonym ClientID = string
type_synonym GameMapType = string

datatype GamePhase = Lobby | Active | Finished

datatype GameType = Singleplayer | Public | Private

datatype Difficulty = Easy | Medium | Hard

text \<open>A value thrown by a JavaScript \<open>throw\<close>.\<close>

datatype error = Error string

text \<open>
  The configuration record of a session (\<open>GameConfig\<close> of core/Schemas). The field
  \<open>gameMap\<close> is \<open>None\<close> when the scheduler stores \<open>undefined\<close> there, which is what
  \<open>Array.prototype.shift\<close> returns on an empty playlist.
\<close>

record GameConfig =
  gameMap :: "GameMapType option"
  gameType :: GameType
  difficulty :: Difficulty
  disableNPCs :: bool
  infiniteGold :: bool
  infiniteTroops :: bool
  instantBuild :: bool
  bots :: int

text \<open>
  Modelled from the spec: the class \<open>GameServer\<close> (server/GameServer.ts) is not part of
  the sources. A session has an identifier (\<open>id\<close> in the source, \<open>gid\<close> here), a
  creation timestamp, a visibility flag, a mutable configuration record, a current
  phase, a started-flag and a roster of joined clients with their last seen turn.
  \<open>phase()\<close> and \<open>hasStarted()\<close> read the corresponding fields.
\<close>

record GameServer =
  gid :: GameID
  createdAt :: int
  isPublic :: bool
  gameConfig :: GameConfig
  phase :: GamePhase
  hasStarted :: bool
  clients :: "(ClientID \<times> int) list"

text \<open>
  Modelled from the spec: the constructor \<open>new GameServer(id, createdAt, isPublic,
  config, gameConfig)\<close>. A session is created in the Lobby phase, not started, with an
  empty roster.
\<close>

definition new_GameServer :: "GameID \<Rightarrow> int \<Rightarrow> bool \<Rightarrow> GameConfig \<Rightarrow> GameServer" where
  "new_GameServer i t pub c =
     \<lparr>gid = i, createdAt = t, isPublic = pub, gameConfig = c,
      phase = Lobby, hasStarted = False, clients = []\<rparr>"

text \<open>
  Modelled from the spec: \<open>GameServer.addClient(handle, lastTurnSeen)\<close> attaches the
  client to the roster; a session in the Finished phase is not joinable and the call
  fails silently.
\<close>

definition GameServer_addClient :: "ClientID \<Rightarrow> int \<Rightarrow> GameServer \<Rightarrow> GameServer" where
  "GameServer_addClient c lastTurn g =
     (if phase g = Finished then g else g\<lparr>clients := clients g @ [(c, lastTurn)]\<rparr>)"

text \<open>
  Modelled from the spec: \<open>GameServer.updateGameConfig(config)\<close> replaces the mutable
  configuration record.
\<close>

definition GameServer_updateGameConfig :: "GameConfig \<Rightarrow> GameServer \<Rightarrow> GameServer" where
  "GameServer_updateGameConfig c g = g\<lparr>gameConfig := c\<rparr>"

text \<open>A reference to a session object: its index in the store.\<close>

type_synonym ref = nat

text \<open>
  What a method of the scheduler does to the outside world, in order: lines written to
  the console, calls of \<open>start()\<close> and \<open>endGame()\<close> on a session and sessions
  constructed.
\<close>

datatype effect =
    ConsoleWarn string
  | ConsoleLog string error
  | Call_start ref
  | Call_endGame ref
  | New_GameServer ref

text \<open>
  What the scheduler takes from its surroundings. All of it but the weighting table is
  outside the sources and so a parameter:
  \<^item> \<open>mapKeys\<close>: the enum \<open>GameMapType\<close> as the list of its keys in the order of
    \<open>Object.keys(GameMapType)\<close>, each with its value \<open>GameMapType[key]\<close>;
  \<^item> \<open>frequency\<close>: the weighting table, \<open>None\<close> for a key that the table lacks
    (\<open>frequency[key]\<close> is \<open>undefined\<close> there). The source writes one table into
    \<open>getNextMap\<close>, \<open>frequency_src\<close> below; the properties of the playlist are
    stated for every table;
  \<^item> \<open>shuffleArray\<close>: \<open>PseudoRandom.shuffleArray\<close>, from the generator's state and
    an array to the shuffled array and the advanced state;
  \<^item> \<open>gameCreationRate\<close>: \<open>config.gameCreationRate()\<close>;
  \<^item> \<open>start\<close>, \<open>endGame\<close>: the session's methods of that name, from the session's
    state to the state they leave, or to the exception they throw (the session is
    taken to be as before then).
\<close>

record 'r Host =
  mapKeys :: "(string \<times> GameMapType) list"
  frequency :: "string \<rightharpoonup> int"
  shuffleArray :: "'r \<Rightarrow> GameMapType list \<Rightarrow> GameMapType list \<times> 'r"
  gameCreationRate :: int
  start :: "GameServer \<Rightarrow> error + GameServer"
  endGame :: "GameServer \<Rightarrow> error + GameServer"

text \<open>
  The fields of \<open>GameManager\<close> (\<open>randomState\<close> is the state of its shuffle source
  \<open>random\<close>), and the store of the session objects: \<open>games\<close> holds references to them.
  A session is never taken out of the store; one that no array refers to any more is
  garbage. A reference is never dangling in JavaScript: the states the properties are
  about have every reference of \<open>games\<close> inside the store (\<open>wellFormed\<close> below).
\<close>

record 'r GameManager =
  lastNewLobby :: int
  mapsPlaylist :: "GameMapType list"
  games :: "ref list"
  randomState :: 'r
  objects :: "GameServer list"

subsection \<open>Lookup and routing\<close>

definition game :: "'r GameManager \<Rightarrow> GameID \<Rightarrow> ref option" where
  "game gm i = List.find (\<lambda>g. gid (objects gm ! g) = i) (games gm)"

definition gamesByPhase :: "'r GameManager \<Rightarrow> GamePhase \<Rightarrow> ref list" where
  "gamesByPhase gm p = filter (\<lambda>g. phase (objects gm ! g) = p) (games gm)"

definition addClient ::
  "ClientID \<Rightarrow> GameID \<Rightarrow> int \<Rightarrow> 'r GameManager \<Rightarrow> (error + bool) \<times> 'r GameManager \<times> effect list" where
  "addClient client gameID lastTurn gm =
     (case List.find (\<lambda>g. gid (objects gm ! g) = gameID) (games gm) of
        Some g \<Rightarrow>
          (Inr True,
           gm\<lparr>objects := (objects gm)[g := GameServer_addClient client lastTurn (objects gm ! g)]\<rparr>,
           [])
      | None \<Rightarrow> (Inr False, gm, []))"

definition updateGameConfig ::
  "GameID \<Rightarrow> GameConfig \<Rightarrow> 'r GameManager \<Rightarrow> (error + unit) \<times> 'r GameManager \<times> effect list" where
  "updateGameConfig gameID cfg gm =
     (case List.find (\<lambda>g. gid (objects gm ! g) = gameID) (games gm) of
        None \<Rightarrow> (Inr (), gm, [ConsoleWarn (''game '' @ gameID @ '' not found'')])
      | Some g \<Rightarrow>
          if isPublic (objects gm ! g)
          then (Inr (), gm, [ConsoleWarn (''cannot update public game '' @ gameID)])
          else (Inr (),
                gm\<lparr>objects := (objects gm)[g := GameServer_updateGameConfig cfg (objects gm ! g)]\<rparr>,
                []))"

subsection \<open>The map playlist\<close>

text \<open>The inner loop \<open>while (count > 0) { push; count-- }\<close>, with \<open>n\<close> for \<open>count\<close>.\<close>

function pushCopies :: "int \<Rightarrow> 'a \<Rightarrow> 'a list \<Rightarrow> 'a list" where
  "pushCopies n v pl = (if n > 0 then pushCopies (n - 1) v (pl @ [v]) else pl)"
  by pat_completeness auto
termination
  by (relation "measure (\<lambda>(n, v, pl). nat n)") auto

declare pushCopies.simps [simp del]

text \<open>
  \<open>Object.keys(GameMapType).map(...)\<close>: for each key in order, \<open>parseInt(frequency[key])\<close>
  copies of the key's value are pushed; a key missing from the table gives \<open>NaN\<close>, and
  \<open>NaN > 0\<close> is false.
\<close>

fun fillPlaylist :: "(string \<times> 'a) list \<Rightarrow> (string \<rightharpoonup> int) \<Rightarrow> 'a list \<Rightarrow> 'a list" where
  "fillPlaylist [] freq pl = pl"
| "fillPlaylist ((key, v) # ks) freq pl =
     fillPlaylist ks freq
       (case freq key of None \<Rightarrow> pl | Some n \<Rightarrow> pushCopies n v pl)"

text \<open>The scan of \<open>allNonConsecutive\<close>, from index \<open>i\<close> on.\<close>

function scanFrom :: "'a list \<Rightarrow> nat \<Rightarrow> bool" where
  "scanFrom maps i =
     (if int i < int (length maps) - 1
      then (if maps ! i = maps ! (i + 1) then False else scanFrom maps (i + 1))
      else True)"
  by pat_completeness auto
termination
  by (relation "measure (\<lambda>(maps, i). length maps - i)") auto

declare scanFrom.simps [simp del]

definition allNonConsecutive :: "'a list \<Rightarrow> bool" where
  "allNonConsecutive maps = scanFrom maps 0"

text \<open>
  The loop \<open>while (true) { shuffle; if (allNonConsecutive) return ... }\<close> of
  \<open>getNextMap\<close>. It has no exit but the accepted shuffle, so it may run forever:
  the result is \<open>None\<close> then.
\<close>

partial_function (option) reshuffle ::
  "('r \<Rightarrow> 'a list \<Rightarrow> 'a list \<times> 'r) \<Rightarrow> 'r \<Rightarrow> 'a list \<Rightarrow> ('a list \<times> 'r) option" where
  "reshuffle sh r pl =
     (case sh r pl of
        (pl', r') \<Rightarrow> if allNonConsecutive pl' then Some (pl', r') else reshuffle sh r' pl')"

declare reshuffle.simps [code]

text \<open>\<open>Array.prototype.shift\<close>: the head, or \<open>undefined\<close> on an empty array.\<close>

definition shift :: "'a list \<Rightarrow> 'a option \<times> 'a list" where
  "shift xs = (case xs of [] \<Rightarrow> (None, []) | x # rest \<Rightarrow> (Some x, rest))"

definition getNextMap ::
  "'r Host \<Rightarrow> 'r GameManager \<Rightarrow> (GameMapType option \<times> 'r GameManager) option" where
  "getNextMap h gm =
     (if length (mapsPlaylist gm) > 0
      then (case shift (mapsPlaylist gm) of
              (m, rest) \<Rightarrow> Some (m, gm\<lparr>mapsPlaylist := rest\<rparr>))
      else (case reshuffle (shuffleArray h) (randomState gm)
                   (fillPlaylist (mapKeys h) (frequency h) (mapsPlaylist gm)) of
              None \<Rightarrow> None
            | Some (pl, r) \<Rightarrow>
                (case shift pl of
                   (m, rest) \<Rightarrow> Some (m, gm\<lparr>mapsPlaylist := rest, randomState := r\<rparr>))))"

text \<open>The weighting table written in \<open>getNextMap\<close>.\<close>

definition frequency_src :: "string \<rightharpoonup> int" where
  "frequency_src =
     map_of [(''World'', 4), (''Europe'', 4), (''Mena'', 2), (''NorthAmerica'', 2),
             (''Oceania'', 1), (''BlackSea'', 2), (''Africa'', 2), (''Asia'', 2),
             (''Mars'', 0)]"

subsection \<open>The tick\<close>

text \<open>The configuration of a public session created by the tick.\<close>

definition publicConfig :: "GameMapType option \<Rightarrow> GameConfig" where
  "publicConfig m =
     \<lparr>gameMap = m, gameType = Public, difficulty = Medium, disableNPCs = False,
      infiniteGold = False, infiniteTroops = False, instantBuild = False, bots = 1000\<rparr>"

text \<open>
  \<open>.forEach((g) => { g.start() })\<close> over the sessions that passed the filter. Nothing
  catches an exception of \<open>start()\<close>: it ends the loop.
\<close>

fun forEach_start ::
  "(GameServer \<Rightarrow> error + GameServer) \<Rightarrow> ref list \<Rightarrow> GameServer list \<Rightarrow>
     (error + unit) \<times> GameServer list \<times> effect list" where
  "forEach_start st [] objs = (Inr (), objs, [])"
| "forEach_start st (g # gs) objs =
     (case st (objs ! g) of
        Inl e \<Rightarrow> (Inl e, objs, [Call_start g])
      | Inr g' \<Rightarrow>
          (case forEach_start st gs (objs[g := g']) of
             (out, objs', es) \<Rightarrow> (out, objs', Call_start g # es)))"

text \<open>
  \<open>finished.forEach((g) => { try { g.endGame() } catch (error) { console.log(...) } })\<close>.
\<close>

fun forEach_endGame ::
  "(GameServer \<Rightarrow> error + GameServer) \<Rightarrow> ref list \<Rightarrow> GameServer list \<Rightarrow>
     GameServer list \<times> effect list" where
  "forEach_endGame en [] objs = (objs, [])"
| "forEach_endGame en (g # gs) objs =
     (case en (objs ! g) of
        Inl e \<Rightarrow>
          (case forEach_endGame en gs objs of
             (objs', es) \<Rightarrow>
               (objs',
                Call_endGame g # ConsoleLog (''error ending game '' @ gid (objs ! g) @ '': '') e # es))
      | Inr g' \<Rightarrow>
          (case forEach_endGame en gs (objs[g := g']) of
             (objs', es) \<Rightarrow> (objs', Call_endGame g # es)))"

text \<open>
  The block \<open>if (now > this.lastNewLobby + this.config.gameCreationRate()) { ... }\<close> of
  the tick: it returns the scheduler state, the local array \<open>lobbies\<close> and the effects.
  The timestamp is stored before \<open>getNextMap()\<close> runs, and the new session is a new
  object of the store.
\<close>

definition createLobby ::
  "'r Host \<Rightarrow> int \<Rightarrow> GameID \<Rightarrow> 'r GameManager \<Rightarrow> ref list \<Rightarrow>
     ('r GameManager \<times> ref list \<times> effect list) option" where
  "createLobby h now newID gm lobbies =
     (if now > lastNewLobby gm + gameCreationRate h
      then (case getNextMap h (gm\<lparr>lastNewLobby := now\<rparr>) of
              None \<Rightarrow> None
            | Some (m, gm1) \<Rightarrow>
                (let g = length (objects gm1)
                 in Some (gm1\<lparr>objects := objects gm1 @ [new_GameServer newID now True (publicConfig m)]\<rparr>,
                          lobbies @ [g], [New_GameServer g])))
      else Some (gm, lobbies, []))"

text \<open>
  \<open>tick()\<close>; \<open>now\<close> is the value of \<open>Date.now()\<close> and \<open>newID\<close> the value that
  \<open>generateID()\<close> returns when it is called.
\<close>

definition tick ::
  "'r Host \<Rightarrow> int \<Rightarrow> GameID \<Rightarrow> 'r GameManager \<Rightarrow>
     ((error + unit) \<times> 'r GameManager \<times> effect list) option" where
  "tick h now newID gm =
     (let lobbies = gamesByPhase gm Lobby;
          active = gamesByPhase gm Active;
          finished = gamesByPhase gm Finished
      in case createLobby h now newID gm lobbies of
           None \<Rightarrow> None
         | Some (gm1, lobbies1, es1) \<Rightarrow>
             (case forEach_start (start h)
                     (filter (\<lambda>g. \<not> hasStarted (objects gm1 ! g) \<and> isPublic (objects gm1 ! g)) active)
                     (objects gm1) of
                (Inl e, objs2, es2) \<Rightarrow> Some (Inl e, gm1\<lparr>objects := objs2\<rparr>, es1 @ es2)
              | (Inr _, objs2, es2) \<Rightarrow>
                  (case forEach_endGame (endGame h) finished objs2 of
                     (objs3, es3) \<Rightarrow>
                       Some (Inr (), gm1\<lparr>games := lobbies1 @ active, objects := objs3\<rparr>,
                             es1 @ es2 @ es3))))"

subsection \<open>Notions used to state the properties\<close>

text \<open>The number of copies of a key's value that the refill pushes.\<close>

definition weight :: "(string \<rightharpoonup> int) \<Rightarrow> string \<Rightarrow> nat" where
  "weight freq key = (case freq key of None \<Rightarrow> 0 | Some n \<Rightarrow> nat n)"

text \<open>
  The weight that the table gives a map identifier: the weights of the keys that stand
  for it, summed (an enum has one key for a value, unless it is declared with aliases).
\<close>

definition tableWeight :: "'r Host \<Rightarrow> GameMapType \<Rightarrow> nat" where
  "tableWeight h v =
     sum_list (map (\<lambda>(key, v'). if v' = v then weight (frequency h) key else 0) (mapKeys h))"

text \<open>The array and generator state after \<open>n + 1\<close> rounds of the reshuffle loop.\<close>

fun attempt :: "('r \<Rightarrow> 'a list \<Rightarrow> 'a list \<times> 'r) \<Rightarrow> nat \<Rightarrow> 'r \<Rightarrow> 'a list \<Rightarrow> 'a list \<times> 'r" where
  "attempt sh 0 r pl = sh r pl"
| "attempt sh (Suc n) r pl = (case sh r pl of (pl', r') \<Rightarrow> attempt sh n r' pl')"

text \<open>\<open>n\<close> calls of \<open>getNextMap()\<close> in a row, with the maps they return.\<close>

fun nextMaps ::
  "'r Host \<Rightarrow> nat \<Rightarrow> 'r GameManager \<Rightarrow> (GameMapType option list \<times> 'r GameManager) option" where
  "nextMaps h 0 gm = Some ([], gm)"
| "nextMaps h (Suc n) gm =
     (case getNextMap h gm of
        None \<Rightarrow> None
      | Some (m, gm1) \<Rightarrow>
          (case nextMaps h n gm1 of
             None \<Rightarrow> None
           | Some (ms, gm2) \<Rightarrow> Some (m # ms, gm2)))"

text \<open>
  One refill cycle: a call of \<open>getNextMap()\<close> on the empty queue, which refills it, and
  then one call for each entry left in the queue.
\<close>

definition refillCycle ::
  "'r Host \<Rightarrow> 'r GameManager \<Rightarrow> (GameMapType option list \<times> 'r GameManager) option" where
  "refillCycle h gm =
     (case getNextMap h gm of
        None \<Rightarrow> None
      | Some (m, gm1) \<Rightarrow>
          (case nextMaps h (length (mapsPlaylist gm1)) gm1 of
             None \<Rightarrow> None
           | Some (ms, gm2) \<Rightarrow> Some (m # ms, gm2)))"

text \<open>The sessions that a list of effects starts, ends and constructs, in order.\<close>

fun calls_start :: "effect list \<Rightarrow> ref list" where
  "calls_start [] = []"
| "calls_start (Call_start g # es) = g # calls_start es"
| "calls_start (_ # es) = calls_start es"

fun calls_endGame :: "effect list \<Rightarrow> ref list" where
  "calls_endGame [] = []"
| "calls_endGame (Call_endGame g # es) = g # calls_endGame es"
| "calls_endGame (_ # es) = calls_endGame es"

fun constructed :: "effect list \<Rightarrow> ref list" where
  "constructed [] = []"
| "constructed (New_GameServer g # es) = g # constructed es"
| "constructed (_ # es) = constructed es"

text \<open>Every reference of the live collection points to an object of the store.\<close>

definition wellFormed :: "'r GameManager \<Rightarrow> bool" where
  "wellFormed gm \<longleftrightarrow> list_all (\<lambda>g. g < length (objects gm)) (games gm)"

text \<open>
  \<open>firstMatch gm gameID g\<close>: \<open>g\<close> is the session that \<open>find((g) => g.id == gameID)\<close>
  returns, the first one of the live collection with that identifier.
\<close>

definition firstMatch :: "'r GameManager \<Rightarrow> GameID \<Rightarrow> ref \<Rightarrow> bool" where
  "firstMatch gm gameID g \<longleftrightarrow>
     (\<exists>i<length (games gm). games gm ! i = g \<and> gid (objects gm ! g) = gameID \<and>
        (\<forall>j<i. gid (objects gm ! (games gm ! j)) \<noteq> gameID))"

text \<open>The sessions that the tick calls \<open>start()\<close> on.\<close>

definition eligible :: "'r GameManager \<Rightarrow> ref \<Rightarrow> bool" where
  "eligible gm g \<longleftrightarrow>
     phase (objects gm ! g) = Active \<and> \<not> hasStarted (objects gm ! g) \<and> isPublic (objects gm ! g)"

subsection \<open>Example surroundings\<close>

text \<open>
  A stand-in for the shuffle source in the examples: it reverses the array and counts
  its calls.
\<close>

definition reverseShuffle :: "nat \<Rightarrow> 'a list \<Rightarrow> 'a list \<times> nat" where
  "reverseShuffle r xs = (rev xs, Suc r)"

text \<open>
  Two maps of weight one; \<open>start()\<close> sets the started-flag; \<open>endGame()\<close> throws for the
  session named \<open>f2\<close>.
\<close>

definition exampleHost :: "nat Host" where
  "exampleHost =
     \<lparr>mapKeys = [(''World'', ''World''), (''Europe'', ''Europe'')],
      frequency = map_of [(''World'', 1), (''Europe'', 1)],
      shuffleArray = reverseShuffle,
      gameCreationRate = 1000,
      start = (\<lambda>g. Inr (g\<lparr>hasStarted := True\<rparr>)),
      endGame = (\<lambda>g. if gid g = ''f2'' then Inl (Error ''teardown failed'') else Inr g)\<rparr>"

text \<open>The same, with the single map \<open>World\<close> of weight two.\<close>

definition singleMapHost :: "nat Host" where
  "singleMapHost =
     exampleHost\<lparr>mapKeys := [(''World'', ''World'')], frequency := map_of [(''World'', 2)]\<rparr>"

text \<open>The same as \<open>exampleHost\<close>, with a \<open>start()\<close> that throws.\<close>

definition failingStartHost :: "nat Host" where
  "failingStartHost = exampleHost\<lparr>start := (\<lambda>g. Inl (Error ''start failed''))\<rparr>"

text \<open>
  The same as \<open>exampleHost\<close>, with a \<open>start()\<close> that throws for the session named
  \<open>a1\<close> and sets the started-flag of every other session.
\<close>

definition firstStartFailsHost :: "nat Host" where
  "firstStartFailsHost =
     exampleHost\<lparr>start := (\<lambda>g. if gid g = ''a1'' then Inl (Error ''start failed'')
                                else Inr (g\<lparr>hasStarted := True\<rparr>))\<rparr>"

definition exampleSession :: "GameID \<Rightarrow> bool \<Rightarrow> GamePhase \<Rightarrow> GameServer" where
  "exampleSession i pub p = (new_GameServer i 0 pub (publicConfig (Some ''World'')))\<lparr>phase := p\<rparr>"

text \<open>A scheduler as constructed: no sessions, an empty playlist, no lobby created yet.\<close>

definition emptyManager :: "nat GameManager" where
  "emptyManager =
     \<lparr>lastNewLobby = 0, mapsPlaylist = [], games = [], randomState = 123, objects = []\<rparr>"

text \<open>
  A scheduler with a lobby, a public and a private session in the Active phase and three
  finished sessions.
\<close>

definition busyManager :: "nat GameManager" where
  "busyManager =
     emptyManager\<lparr>games := [0, 1, 2, 3, 4, 5],
       objects :=
         [exampleSession ''l1'' True Lobby,
          exampleSession ''f1'' True Finished,
          exampleSession ''a1'' True Active,
          exampleSession ''f2'' True Finished,
          exampleSession ''a2'' False Active,
          exampleSession ''f3'' False Finished]\<rparr>"

text \<open>A scheduler with two public sessions in the Active phase, neither started.\<close>

definition twoActiveManager :: "nat GameManager" where
  "twoActiveManager =
     emptyManager\<lparr>games := [0, 1],
       objects := [exampleSession ''a1'' True Active, exampleSession ''a3'' True Active]\<rparr>"

text \<open>The same after a tick that starts the public session of the Active phase.\<close>

definition busyManager_ticked :: "nat GameManager" where
  "busyManager_ticked =
     busyManager\<lparr>games := [0, 2, 4],
       objects := (objects busyManager)[2 := (exampleSession ''a1'' True Active)\<lparr>hasStarted := True\<rparr>]\<rparr>"

section \<open>The map playlist\<close>

subsection \<open>The refill\<close>

lemma pushCopies_replicate: "pushCopies n v pl = pl @ replicate (nat n) v"
proof (induction n v pl rule: pushCopies.induct)
  case (1 n v pl)
  show ?case
  proof (cases "n > 0")
    case True
    then have "nat n = Suc (nat (n - 1))" by simp
    with True "1" show ?thesis
      by (subst pushCopies.simps) (simp add: replicate_app_Cons_same)
  next
    case False
    then show ?thesis by (subst pushCopies.simps) simp
  qed
qed

lemma fillPlaylist_concat:
  "fillPlaylist ks freq pl = pl @ concat (map (\<lambda>(key, v). replicate (weight freq key) v) ks)"
  by (induction ks freq pl rule: fillPlaylist.induct)
     (auto simp: pushCopies_replicate weight_def split: option.splits)

lemma count_list_replicate_if: "count_list (replicate n x) v = (if x = v then n else 0)"
  by (induction n) auto

lemma count_list_concat_replicate:
  "count_list (concat (map (\<lambda>(key, v'). replicate (w key) v') ks)) v =
   sum_list (map (\<lambda>(key, v'). if v' = v then w key else 0) ks)"
  by (induction ks) (auto simp: count_list_append count_list_replicate_if)

lemma count_list_fill:
  "count_list (fillPlaylist (mapKeys h) (frequency h) []) v = tableWeight h v"
  by (simp add: fillPlaylist_concat tableWeight_def count_list_concat_replicate)

lemma count_list_map_Some: "count_list (map Some xs) (Some v) = count_list xs v"
  by (induction xs) auto

lemma count_list_map_Some_None: "count_list (map Some xs) None = 0"
  by (induction xs) auto

text \<open>
  Where the values of the enum are pairwise different, the weight of a map identifier
  is the weight of its key, and a value that is not in the enum has weight zero.
\<close>

lemma sum_list_no_match:
  "v \<notin> snd ` set ks \<Longrightarrow> sum_list (map (\<lambda>(key, v'). if v' = v then w key else 0) ks) = (0::nat)"
  by (induction ks) auto

lemma sum_list_one_match:
  "distinct (map snd ks) \<Longrightarrow> (key, v) \<in> set ks \<Longrightarrow>
   sum_list (map (\<lambda>(key, v'). if v' = v then w key else 0) ks) = (w key :: nat)"
proof (induction ks)
  case Nil
  then show ?case by simp
next
  case (Cons k ks)
  obtain key' v' where k: "k = (key', v')" by (cases k)
  show ?case
  proof (cases "(key, v) = k")
    case True
    with Cons.prems(1) k have "v \<notin> snd ` set ks" by auto
    with True k show ?thesis by (simp add: sum_list_no_match)
  next
    case False
    with Cons.prems have in_ks: "(key, v) \<in> set ks" and d: "distinct (map snd ks)" by auto
    from in_ks have "v \<in> snd ` set ks" by force
    with Cons.prems(1) k have "v' \<noteq> v" by auto
    with Cons.IH [OF d in_ks] k show ?thesis by simp
  qed
qed

lemma tableWeight_key:
  "distinct (map snd (mapKeys h)) \<Longrightarrow> (key, v) \<in> set (mapKeys h) \<Longrightarrow>
   tableWeight h v = weight (frequency h) key"
  unfolding tableWeight_def by (rule sum_list_one_match)

lemma tableWeight_absent: "v \<notin> snd ` set (mapKeys h) \<Longrightarrow> tableWeight h v = 0"
  unfolding tableWeight_def by (rule sum_list_no_match)

text \<open>In the table of the source, \<open>Mars\<close> has weight zero and the weights add up to 19.\<close>

lemma frequency_src_weights:
  "weight frequency_src ''Mars'' = 0"
  "sum_list (map (weight frequency_src)
     [''World'', ''Europe'', ''Mena'', ''NorthAmerica'', ''Oceania'', ''BlackSea'', ''Africa'',
      ''Asia'', ''Mars'']) = 19"
  by (simp_all add: weight_def frequency_src_def)

subsection \<open>The scan for adjacent duplicates\<close>

lemma scanFrom_iff:
  "scanFrom maps i \<longleftrightarrow> (\<forall>j. i \<le> j \<and> Suc j < length maps \<longrightarrow> maps ! j \<noteq> maps ! Suc j)"
proof (induction maps i rule: scanFrom.induct)
  case (1 maps i)
  show ?case
  proof (cases "int i < int (length maps) - 1")
    case True
    then have lt: "Suc i < length maps" by linarith
    show ?thesis
    proof (cases "maps ! i = maps ! (i + 1)")
      case True
      with lt show ?thesis by (subst scanFrom.simps) auto
    next
      case False
      have "scanFrom maps i = scanFrom maps (i + 1)"
        using True False by (subst scanFrom.simps) simp
      also have "\<dots> = (\<forall>j. i + 1 \<le> j \<and> Suc j < length maps \<longrightarrow> maps ! j \<noteq> maps ! Suc j)"
        using "1" True False by simp
      also have "\<dots> = (\<forall>j. i \<le> j \<and> Suc j < length maps \<longrightarrow> maps ! j \<noteq> maps ! Suc j)"
        using False by (metis Suc_eq_plus1 Suc_leI le_neq_implies_less Suc_le_lessD less_or_eq_imp_le)
      finally show ?thesis .
    qed
  next
    case False
    then have "\<not> Suc i < length maps" by linarith
    with False show ?thesis by (subst scanFrom.simps) auto
  qed
qed

lemma allNonConsecutive_iff:
  "allNonConsecutive maps \<longleftrightarrow> (\<forall>j. Suc j < length maps \<longrightarrow> maps ! j \<noteq> maps ! Suc j)"
  by (simp add: allNonConsecutive_def scanFrom_iff)

lemma not_allNonConsecutive_two: "\<not> allNonConsecutive [a, a]"
  by (simp add: allNonConsecutive_iff)

subsection \<open>The reshuffle loop\<close>

lemmas reshuffle_induct = reshuffle.raw_induct [rotated 1, consumes 1, case_names step]

lemma reshuffle_accepts:
  "reshuffle sh r pl = Some y \<Longrightarrow> allNonConsecutive (fst y)"
  by (induction sh r pl y rule: reshuffle_induct) (auto split: prod.splits if_splits)

lemma reshuffle_mset:
  assumes perm: "\<And>r xs. mset (fst (sh r xs)) = mset xs"
  shows "reshuffle sh' r pl = Some y \<Longrightarrow> sh' = sh \<Longrightarrow> mset (fst y) = mset pl"
proof (induction sh' r pl y rule: reshuffle_induct)
  case (step f sh0 r0 pl0 y0)
  obtain pl' r' where s: "sh0 r0 pl0 = (pl', r')" by (cases "sh0 r0 pl0")
  have m: "mset pl' = mset pl0" using perm [of r0 pl0] s step(3) by simp
  show ?case
  proof (cases "allNonConsecutive pl'")
    case True
    with step(2) s m show ?thesis by auto
  next
    case False
    with step(2) s have "f sh0 r' pl' = Some y0" by simp
    from step(1) [OF this step(3)] m show ?thesis by simp
  qed
qed

lemma reshuffle_first_accepted:
  "allNonConsecutive (fst (attempt sh n r pl)) \<Longrightarrow>
   (\<And>m. m < n \<Longrightarrow> \<not> allNonConsecutive (fst (attempt sh m r pl))) \<Longrightarrow>
   reshuffle sh r pl = Some (attempt sh n r pl)"
proof (induction n arbitrary: r pl)
  case 0
  then show ?case by (subst reshuffle.simps) (auto split: prod.splits)
next
  case (Suc n)
  obtain pl' r' where s: "sh r pl = (pl', r')" by (cases "sh r pl")
  have "\<not> allNonConsecutive pl'" using Suc.prems(2) [of 0] s by simp
  moreover have "reshuffle sh r' pl' = Some (attempt sh n r' pl')"
  proof (rule Suc.IH)
    show "allNonConsecutive (fst (attempt sh n r' pl'))" using Suc.prems(1) s by simp
    fix m assume "m < n"
    then show "\<not> allNonConsecutive (fst (attempt sh m r' pl'))"
      using Suc.prems(2) [of "Suc m"] s by simp
  qed
  ultimately show ?case using s by (subst reshuffle.simps) simp
qed

lemma reshuffle_Some_attempt:
  "reshuffle sh r pl = Some y \<Longrightarrow>
   \<exists>n. y = attempt sh n r pl \<and> allNonConsecutive (fst (attempt sh n r pl)) \<and>
       (\<forall>m<n. \<not> allNonConsecutive (fst (attempt sh m r pl)))"
proof (induction sh r pl y rule: reshuffle_induct)
  case (step f sh0 r0 pl0 y0)
  obtain pl' r' where s: "sh0 r0 pl0 = (pl', r')" by (cases "sh0 r0 pl0")
  show ?case
  proof (cases "allNonConsecutive pl'")
    case True
    with step(2) s have "y0 = attempt sh0 0 r0 pl0" by auto
    with True s show ?thesis by (intro exI [of _ 0]) simp
  next
    case False
    with step(2) s have "f sh0 r' pl' = Some y0" by simp
    from step(1) [OF this] obtain n where n: "y0 = attempt sh0 n r' pl'"
      "allNonConsecutive (fst (attempt sh0 n r' pl'))"
      "\<forall>m<n. \<not> allNonConsecutive (fst (attempt sh0 m r' pl'))" by blast
    have "\<forall>m<Suc n. \<not> allNonConsecutive (fst (attempt sh0 m r0 pl0))"
    proof (intro allI impI)
      fix m assume "m < Suc n"
      then show "\<not> allNonConsecutive (fst (attempt sh0 m r0 pl0))"
        using False s n(3) by (cases m) auto
    qed
    with n(1,2) s show ?thesis by (intro exI [of _ "Suc n"]) simp
  qed
qed

text \<open>The loop runs forever exactly when no round produces an accepted array.\<close>

lemma reshuffle_None_iff:
  "reshuffle sh r pl = None \<longleftrightarrow> (\<forall>n. \<not> allNonConsecutive (fst (attempt sh n r pl)))"
proof
  assume none: "reshuffle sh r pl = None"
  show "\<forall>n. \<not> allNonConsecutive (fst (attempt sh n r pl))"
  proof (rule ccontr)
    assume "\<not> (\<forall>n. \<not> allNonConsecutive (fst (attempt sh n r pl)))"
    then have ex: "\<exists>n. allNonConsecutive (fst (attempt sh n r pl))" by simp
    define k where "k = (LEAST n. allNonConsecutive (fst (attempt sh n r pl)))"
    have "allNonConsecutive (fst (attempt sh k r pl))"
      unfolding k_def using ex by (rule LeastI_ex)
    moreover have "\<And>m. m < k \<Longrightarrow> \<not> allNonConsecutive (fst (attempt sh m r pl))"
      unfolding k_def by (rule not_less_Least)
    ultimately have "reshuffle sh r pl = Some (attempt sh k r pl)"
      by (rule reshuffle_first_accepted)
    with none show False by simp
  qed
next
  assume "\<forall>n. \<not> allNonConsecutive (fst (attempt sh n r pl))"
  then show "reshuffle sh r pl = None"
    using reshuffle_Some_attempt [of sh r pl] by (cases "reshuffle sh r pl") auto
qed

lemma reshuffle_never:
  assumes perm: "\<And>r xs. mset (fst (sh r xs)) = mset xs"
    and none: "\<And>ys. mset ys = mset pl \<Longrightarrow> \<not> allNonConsecutive ys"
  shows "reshuffle sh r pl = None"
proof (cases "reshuffle sh r pl")
  case None
  then show ?thesis .
next
  case (Some y)
  from reshuffle_mset [of sh, OF perm Some refl] reshuffle_accepts [OF Some] none
  show ?thesis by blast
qed

subsection \<open>Calls of \<open>getNextMap\<close>\<close>

lemma getNextMap_pop:
  "mapsPlaylist gm = m # rest \<Longrightarrow> getNextMap h gm = Some (Some m, gm\<lparr>mapsPlaylist := rest\<rparr>)"
  by (simp add: getNextMap_def shift_def)

lemma getNextMap_refill:
  "mapsPlaylist gm = [] \<Longrightarrow>
   getNextMap h gm =
     (case reshuffle (shuffleArray h) (randomState gm) (fillPlaylist (mapKeys h) (frequency h) []) of
        None \<Rightarrow> None
      | Some (pl, r) \<Rightarrow> Some (fst (shift pl), gm\<lparr>mapsPlaylist := snd (shift pl), randomState := r\<rparr>))"
  by (simp add: getNextMap_def split: option.splits prod.splits)

lemma nextMaps_drain:
  "n \<le> length (mapsPlaylist gm) \<Longrightarrow>
   nextMaps h n gm =
     Some (map Some (take n (mapsPlaylist gm)), gm\<lparr>mapsPlaylist := drop n (mapsPlaylist gm)\<rparr>)"
proof (induction n arbitrary: gm)
  case 0
  then show ?case by simp
next
  case (Suc n)
  then obtain m rest where pl: "mapsPlaylist gm = m # rest" by (cases "mapsPlaylist gm") auto
  with Suc.prems have "n \<le> length (mapsPlaylist (gm\<lparr>mapsPlaylist := rest\<rparr>))" by simp
  from Suc.IH [OF this] pl show ?case by (simp add: getNextMap_pop)
qed

text \<open>
  A cycle returns the accepted array, entry by entry; where that array is empty, it is
  the single call that returns \<open>undefined\<close>.
\<close>

lemma refillCycle_eq:
  assumes "mapsPlaylist gm = []"
  shows "refillCycle h gm =
     (case reshuffle (shuffleArray h) (randomState gm) (fillPlaylist (mapKeys h) (frequency h) []) of
        None \<Rightarrow> None
      | Some (pl, r) \<Rightarrow>
          Some (if pl = [] then [None] else map Some pl, gm\<lparr>mapsPlaylist := [], randomState := r\<rparr>))"
proof (cases "reshuffle (shuffleArray h) (randomState gm) (fillPlaylist (mapKeys h) (frequency h) [])")
  case None
  with assms show ?thesis by (simp add: refillCycle_def getNextMap_refill)
next
  case (Some y)
  obtain pl r where y: "y = (pl, r)" by (cases y)
  let ?gm1 = "gm\<lparr>mapsPlaylist := snd (shift pl), randomState := r\<rparr>"
  have g: "getNextMap h gm = Some (fst (shift pl), ?gm1)"
    using assms Some y by (simp add: getNextMap_refill)
  have "refillCycle h gm = Some (fst (shift pl) # map Some (snd (shift pl)), ?gm1\<lparr>mapsPlaylist := []\<rparr>)"
    by (simp add: refillCycle_def g nextMaps_drain)
  also have "\<dots> = Some (if pl = [] then [None] else map Some pl, gm\<lparr>mapsPlaylist := [], randomState := r\<rparr>)"
    by (cases pl) (simp_all add: shift_def)
  finally show ?thesis using Some y by simp
qed

subsection \<open>The example table\<close>

lemma fill_example:
  "fillPlaylist (mapKeys exampleHost) (frequency exampleHost) [] = [''World'', ''Europe'']"
  by (simp add: exampleHost_def fillPlaylist_concat weight_def)

lemma reverseShuffle_example:
  "reverseShuffle r [''World'', ''Europe''] = ([''Europe'', ''World''], Suc r)"
  by (simp add: reverseShuffle_def)

lemma allNonConsecutive_example: "allNonConsecutive [''Europe'', ''World'']"
  by (simp add: allNonConsecutive_iff less_Suc_eq)

lemma reshuffle_example:
  "reshuffle reverseShuffle r [''World'', ''Europe''] = Some ([''Europe'', ''World''], Suc r)"
  using reshuffle_first_accepted [of reverseShuffle 0 r "[''World'', ''Europe'']"]
  by (simp add: reverseShuffle_example allNonConsecutive_example)

lemma shuffleArray_example: "shuffleArray exampleHost = reverseShuffle"
  by (simp add: exampleHost_def)

lemma emptyManager_fields:
  "mapsPlaylist emptyManager = []" "randomState emptyManager = 123"
  "lastNewLobby emptyManager = 0" "games emptyManager = []" "objects emptyManager = []"
  by (simp_all add: emptyManager_def)

lemma getNextMap_example:
  "getNextMap exampleHost emptyManager =
     Some (Some ''Europe'', emptyManager\<lparr>mapsPlaylist := [''World''], randomState := 124\<rparr>)"
  by (simp add: getNextMap_refill emptyManager_fields fill_example shuffleArray_example
        reshuffle_example shift_def)

lemma refillCycle_example:
  "refillCycle exampleHost emptyManager =
     Some ([Some ''Europe'', Some ''World''], emptyManager\<lparr>mapsPlaylist := [], randomState := 124\<rparr>)"
  by (simp add: refillCycle_eq emptyManager_fields fill_example shuffleArray_example
        reshuffle_example)

lemma reverseShuffle_mset: "mset (fst (reverseShuffle r xs)) = mset xs"
  by (simp add: reverseShuffle_def)

lemma fill_single:
  "fillPlaylist (mapKeys singleMapHost) (frequency singleMapHost) [] = [''World'', ''World'']"
  by (simp add: singleMapHost_def exampleHost_def fillPlaylist_concat weight_def numeral_2_eq_2)

lemma mset_eq_two_same: "mset ys = {#a, a#} \<Longrightarrow> ys = [a, a]"
proof -
  assume "mset ys = {#a, a#}"
  then have a: "mset ys = mset [a, a]" by simp
  then have l: "length ys = 2" by (metis length_Cons list.size(3) mset_eq_length numeral_2_eq_2)
  from a have "set ys = {a}" by (metis mset_eq_setD insert_absorb2 list.simps(15) empty_set)
  with l show ?thesis
    by (cases ys; cases "tl ys"; cases "tl (tl ys)") auto
qed

subsection \<open>Termination of the rebuild\<close>

text \<open>
  C3, as the code has it. The rebuild has no bound on its attempts and no fallback: a
  call of \<open>getNextMap()\<close> on the empty queue returns exactly when some round of the
  reshuffle loop produces an array without adjacent duplicates. Where the shuffle source
  permutes its array and the refilled array has no arrangement without adjacent
  duplicates, the call never returns.
\<close>

theorem getNextMap_returns_iff:
  assumes "mapsPlaylist gm = []"
  shows "(getNextMap h gm = None) =
           (\<forall>n. \<not> allNonConsecutive
                   (fst (attempt (shuffleArray h) n (randomState gm)
                          (fillPlaylist (mapKeys h) (frequency h) [])))) \<and>
         ((\<forall>r xs. mset (fst (shuffleArray h r xs)) = mset xs) \<and>
          (\<forall>ys. mset ys = mset (fillPlaylist (mapKeys h) (frequency h) []) \<longrightarrow>
                \<not> allNonConsecutive ys) \<longrightarrow>
          getNextMap h gm = None)"
proof (intro conjI impI)
  show "(getNextMap h gm = None) =
           (\<forall>n. \<not> allNonConsecutive
                   (fst (attempt (shuffleArray h) n (randomState gm)
                          (fillPlaylist (mapKeys h) (frequency h) []))))"
    using assms
    by (simp add: getNextMap_refill reshuffle_None_iff [symmetric] split: option.splits)
next
  assume a: "(\<forall>r xs. mset (fst (shuffleArray h r xs)) = mset xs) \<and>
          (\<forall>ys. mset ys = mset (fillPlaylist (mapKeys h) (frequency h) []) \<longrightarrow>
                \<not> allNonConsecutive ys)"
  have "reshuffle (shuffleArray h) (randomState gm) (fillPlaylist (mapKeys h) (frequency h) []) = None"
    by (rule reshuffle_never) (use a in auto)
  with assms show "getNextMap h gm = None" by (simp add: getNextMap_refill)
qed

text \<open>
  The example table has an accepted arrangement, found in the first round, and the call
  returns.
\<close>

theorem getNextMap_returns_iff_witness:
  "mapsPlaylist emptyManager = [] \<and>
   allNonConsecutive
     (fst (attempt (shuffleArray exampleHost) 0 (randomState emptyManager)
            (fillPlaylist (mapKeys exampleHost) (frequency exampleHost) []))) \<and>
   getNextMap exampleHost emptyManager \<noteq> None"
proof -
  have e: "mapsPlaylist emptyManager = []" by (simp add: emptyManager_fields)
  have a: "allNonConsecutive
     (fst (attempt (shuffleArray exampleHost) 0 (randomState emptyManager)
            (fillPlaylist (mapKeys exampleHost) (frequency exampleHost) [])))"
    by (simp add: fill_example shuffleArray_example reverseShuffle_example allNonConsecutive_example)
  from getNextMap_returns_iff [OF e, of exampleHost] a
  have "getNextMap exampleHost emptyManager \<noteq> None" by blast
  with e a show ?thesis by blast
qed

text \<open>
  C3, as the spec has it, fails: with the single map \<open>World\<close> of weight two the refilled
  array is \<open>[World, World]\<close>, which every shuffle leaves as it is, and the call of
  \<open>getNextMap()\<close> on the empty queue does not return.
\<close>

theorem getNextMap_single_map_never_returns:
  "getNextMap singleMapHost emptyManager = None"
proof -
  have sh: "shuffleArray singleMapHost = reverseShuffle"
    by (simp add: singleMapHost_def exampleHost_def)
  have "reshuffle reverseShuffle (randomState emptyManager) [''World'', ''World''] = None"
    by (rule reshuffle_never)
       (auto simp: reverseShuffle_def not_allNonConsecutive_two dest!: mset_eq_two_same)
  then show ?thesis
    by (simp add: getNextMap_refill emptyManager_fields fill_single sh)
qed

subsection \<open>One refill cycle\<close>

text \<open>
  C4. Starting from the empty queue, a refill cycle either does not return, which is the
  case only when no round of the reshuffle loop is accepted, or it returns a non-empty
  sequence of maps in which no two neighbours are equal, and leaves the queue empty.
  This holds for every weighting table, so also for those with two or more map
  identifiers of positive weight.
\<close>

theorem refillCycle_no_consecutive:
  assumes "mapsPlaylist gm = []"
  shows "case refillCycle h gm of
           None \<Rightarrow>
             \<forall>n. \<not> allNonConsecutive
                    (fst (attempt (shuffleArray h) n (randomState gm)
                           (fillPlaylist (mapKeys h) (frequency h) [])))
         | Some (ms, gm') \<Rightarrow>
             ms \<noteq> [] \<and> mapsPlaylist gm' = [] \<and>
             (\<forall>i. Suc i < length ms \<longrightarrow> ms ! i \<noteq> ms ! Suc i)"
proof (cases "reshuffle (shuffleArray h) (randomState gm) (fillPlaylist (mapKeys h) (frequency h) [])")
  case None
  then show ?thesis
    using assms by (simp add: refillCycle_eq reshuffle_None_iff [symmetric])
next
  case (Some y)
  obtain pl r where y: "y = (pl, r)" by (cases y)
  from reshuffle_accepts [OF Some] y
  have "\<forall>j. Suc j < length pl \<longrightarrow> pl ! j \<noteq> pl ! Suc j"
    by (simp add: allNonConsecutive_iff)
  then show ?thesis
    using assms Some y by (simp add: refillCycle_eq)
qed

theorem refillCycle_no_consecutive_witness:
  "mapsPlaylist emptyManager = [] \<and>
   (\<exists>ms gm'. refillCycle exampleHost emptyManager = Some (ms, gm') \<and>
       ms = [Some ''Europe'', Some ''World''] \<and> ms ! 0 \<noteq> ms ! Suc 0 \<and> mapsPlaylist gm' = [])"
proof -
  have e: "mapsPlaylist emptyManager = []" by (simp add: emptyManager_fields)
  from refillCycle_no_consecutive [OF e, of exampleHost] e
  show ?thesis by (simp add: refillCycle_example)
qed

text \<open>The maps of a cycle that has returned, counted.\<close>

lemma refillCycle_counts:
  assumes "mapsPlaylist gm = []"
    and perm: "\<forall>r xs. mset (fst (shuffleArray h r xs)) = mset xs"
    and cycle: "refillCycle h gm = Some (ms, gm')"
  shows "(\<forall>v. count_list ms (Some v) = tableWeight h v) \<and>
         (\<forall>key v. distinct (map snd (mapKeys h)) \<and> (key, v) \<in> set (mapKeys h) \<longrightarrow>
                  count_list ms (Some v) = weight (frequency h) key) \<and>
         count_list ms None = (if fillPlaylist (mapKeys h) (frequency h) [] = [] then 1 else 0)"
proof -
  let ?fill = "fillPlaylist (mapKeys h) (frequency h) []"
  from cycle assms(1) obtain pl r where
    re: "reshuffle (shuffleArray h) (randomState gm) ?fill = Some (pl, r)"
    and ms: "ms = (if pl = [] then [None] else map Some pl)"
    by (auto simp: refillCycle_eq split: option.splits)
  have m: "mset pl = mset ?fill"
    using reshuffle_mset [of "shuffleArray h", OF _ re refl] perm by simp
  have c: "count_list ms (Some v) = tableWeight h v" for v
  proof -
    from m have "count_list pl v = count_list ?fill v" by (metis count_mset)
    moreover have "count_list ms (Some v) = count_list pl v"
      using ms by (cases "pl = []") (simp_all add: count_list_map_Some)
    ultimately show ?thesis by (simp add: count_list_fill)
  qed
  from m have "pl = [] \<longleftrightarrow> ?fill = []" by (metis mset_zero_iff)
  then have n: "count_list ms None = (if ?fill = [] then 1 else 0)"
    using ms by (simp add: count_list_map_Some_None)
  from c n show ?thesis by (simp add: tableWeight_key)
qed

text \<open>
  C5. Take the empty queue and a shuffle source that permutes its array. A refill cycle
  either does not return, which is the case only when no round of the reshuffle loop is
  accepted, or the maps it returns hold every map identifier as often as the table
  says: the weight of its key, and never a value that no key of positive weight stands
  for. A table without a positive weight makes the cycle a single call that returns
  \<open>undefined\<close>, which is no map identifier.
\<close>

theorem refillCycle_multiset:
  assumes "mapsPlaylist gm = []"
    and perm: "\<forall>r xs. mset (fst (shuffleArray h r xs)) = mset xs"
  shows "case refillCycle h gm of
           None \<Rightarrow>
             \<forall>n. \<not> allNonConsecutive
                    (fst (attempt (shuffleArray h) n (randomState gm)
                           (fillPlaylist (mapKeys h) (frequency h) [])))
         | Some (ms, gm') \<Rightarrow>
             (\<forall>v. count_list ms (Some v) = tableWeight h v) \<and>
             (\<forall>key v. distinct (map snd (mapKeys h)) \<and> (key, v) \<in> set (mapKeys h) \<longrightarrow>
                      count_list ms (Some v) = weight (frequency h) key) \<and>
             count_list ms None =
               (if fillPlaylist (mapKeys h) (frequency h) [] = [] then 1 else 0)"
proof (cases "refillCycle h gm")
  case None
  then have "reshuffle (shuffleArray h) (randomState gm)
               (fillPlaylist (mapKeys h) (frequency h) []) = None"
    using assms(1) by (auto simp: refillCycle_eq split: option.splits)
  then have "\<forall>n. \<not> allNonConsecutive
                    (fst (attempt (shuffleArray h) n (randomState gm)
                           (fillPlaylist (mapKeys h) (frequency h) [])))"
    by (simp add: reshuffle_None_iff)
  then show ?thesis unfolding None option.case .
next
  case (Some y)
  obtain ms gm' where y: "y = (ms, gm')" by (cases y)
  note counts = refillCycle_counts [OF assms(1) perm Some [unfolded y]]
  show ?thesis unfolding Some y option.case prod.case by (rule counts)
qed

theorem refillCycle_multiset_witness:
  "mapsPlaylist emptyManager = [] \<and>
   (\<exists>ms gm'. refillCycle exampleHost emptyManager = Some (ms, gm') \<and>
       count_list ms (Some ''World'') = 1 \<and> count_list ms (Some ''Europe'') = 1 \<and>
       count_list ms (Some ''Mars'') = 0 \<and> count_list ms None = 0)"
proof -
  have e: "mapsPlaylist emptyManager = []" by (simp add: emptyManager_fields)
  have p: "\<forall>r xs. mset (fst (shuffleArray exampleHost r xs)) = mset xs"
    by (simp add: shuffleArray_example reverseShuffle_mset)
  have w: "tableWeight exampleHost ''World'' = 1" "tableWeight exampleHost ''Europe'' = 1"
    "tableWeight exampleHost ''Mars'' = 0"
    by (simp_all add: tableWeight_def exampleHost_def weight_def)
  note th = refillCycle_multiset [OF e p, unfolded refillCycle_example option.case prod.case]
  from th e w
  show ?thesis by (simp add: refillCycle_example fill_example)
qed

section \<open>The tick\<close>

subsection \<open>Effects\<close>

lemma calls_start_append: "calls_start (es @ es') = calls_start es @ calls_start es'"
  by (induction es rule: calls_start.induct) auto

lemma calls_endGame_append: "calls_endGame (es @ es') = calls_endGame es @ calls_endGame es'"
  by (induction es rule: calls_endGame.induct) auto

lemma constructed_append: "constructed (es @ es') = constructed es @ constructed es'"
  by (induction es rule: constructed.induct) auto

subsection \<open>The loop over the sessions to start\<close>

lemma forEach_start_length:
  "forEach_start st gs objs = (out, objs', es) \<Longrightarrow> length objs' = length objs"
  by (induction gs arbitrary: objs out objs' es) (auto split: sum.splits prod.splits)

lemma forEach_start_others:
  "forEach_start st gs objs = (out, objs', es) \<Longrightarrow> g \<notin> set gs \<Longrightarrow> objs' ! g = objs ! g"
  by (induction gs arbitrary: objs out objs' es) (auto split: sum.splits prod.splits)

lemma forEach_start_effects:
  "forEach_start st gs objs = (out, objs', es) \<Longrightarrow>
   calls_endGame es = [] \<and> constructed es = [] \<and>
   (\<exists>k\<le>length gs. calls_start es = take k gs) \<and>
   (out = Inr () \<longrightarrow> calls_start es = gs)"
proof (induction gs arbitrary: objs out objs' es)
  case Nil
  then show ?case by auto
next
  case (Cons g gs)
  show ?case
  proof (cases "st (objs ! g)")
    case (Inl e)
    with Cons.prems have "es = [Call_start g]" "out = Inl e" by auto
    then show ?thesis by (auto intro: exI [of _ 1])
  next
    case (Inr g')
    with Cons.prems obtain es0 where
      r: "forEach_start st gs (objs[g := g']) = (out, objs', es0)" and es: "es = Call_start g # es0"
      by (auto split: prod.splits)
    from Cons.IH [OF r] obtain k where
      k: "k \<le> length gs" "calls_start es0 = take k gs"
      and rest: "calls_endGame es0 = []" "constructed es0 = []"
        "out = Inr () \<longrightarrow> calls_start es0 = gs" by blast
    from k have "Suc k \<le> length (g # gs)" "calls_start es = take (Suc k) (g # gs)"
      using es by auto
    then have "\<exists>k\<le>length (g # gs). calls_start es = take k (g # gs)" by blast
    with rest es show ?thesis by auto
  qed
qed

lemma forEach_start_started:
  assumes flag: "\<And>g g'. st g = Inr g' \<Longrightarrow> hasStarted g'"
  shows "forEach_start st gs objs = (Inr (), objs', es) \<Longrightarrow> g \<in> set gs \<Longrightarrow> g < length objs \<Longrightarrow>
         hasStarted (objs' ! g)"
proof (induction gs arbitrary: objs objs' es)
  case Nil
  then show ?case by simp
next
  case (Cons a gs)
  from Cons.prems(1) obtain a' es0 where
    a: "st (objs ! a) = Inr a'"
    and r: "forEach_start st gs (objs[a := a']) = (Inr (), objs', es0)"
    by (auto split: sum.splits prod.splits)
  show ?case
  proof (cases "g \<in> set gs")
    case True
    with Cons.IH [OF r] Cons.prems(3) show ?thesis by simp
  next
    case False
    with Cons.prems(2) have "g = a" by simp
    moreover from forEach_start_others [OF r False] have "objs' ! g = (objs[a := a']) ! g" .
    ultimately show ?thesis using flag [OF a] Cons.prems(3) by simp
  qed
qed

subsection \<open>The loop over the finished sessions\<close>

lemma forEach_endGame_length:
  "forEach_endGame en gs objs = (objs', es) \<Longrightarrow> length objs' = length objs"
  by (induction gs arbitrary: objs objs' es) (auto split: sum.splits prod.splits)

lemma forEach_endGame_others:
  "forEach_endGame en gs objs = (objs', es) \<Longrightarrow> g \<notin> set gs \<Longrightarrow> objs' ! g = objs ! g"
  by (induction gs arbitrary: objs objs' es) (auto split: sum.splits prod.splits)

lemma forEach_endGame_effects:
  "forEach_endGame en gs objs = (objs', es) \<Longrightarrow>
   calls_endGame es = gs \<and> calls_start es = [] \<and> constructed es = []"
  by (induction gs arbitrary: objs objs' es) (auto split: sum.splits prod.splits)

text \<open>
  A session whose \<open>endGame()\<close> throws gets its line on the console, whatever the other
  sessions of the loop do.
\<close>

lemma forEach_endGame_logged:
  "forEach_endGame en gs objs = (objs', es) \<Longrightarrow> distinct gs \<Longrightarrow> g \<in> set gs \<Longrightarrow>
   en (objs ! g) = Inl e \<Longrightarrow>
   ConsoleLog (''error ending game '' @ gid (objs ! g) @ '': '') e \<in> set es"
proof (induction gs arbitrary: objs objs' es)
  case Nil
  then show ?case by simp
next
  case (Cons a gs)
  show ?case
  proof (cases "g = a")
    case True
    with Cons.prems show ?thesis by (auto split: prod.splits)
  next
    case False
    with Cons.prems have g: "g \<in> set gs" and d: "distinct gs" by auto
    show ?thesis
    proof (cases "en (objs ! a)")
      case (Inl e')
      obtain objs0 es0 where r: "forEach_endGame en gs objs = (objs0, es0)"
        by (cases "forEach_endGame en gs objs")
      with Cons.prems(1) Inl have s: "set es0 \<subseteq> set es" by auto
      from Cons.IH [OF r d g Cons.prems(4)] s show ?thesis by auto
    next
      case (Inr a')
      obtain objs0 es0 where r: "forEach_endGame en gs (objs[a := a']) = (objs0, es0)"
        by (cases "forEach_endGame en gs (objs[a := a'])")
      with Cons.prems(1) Inr have s: "set es0 \<subseteq> set es" by auto
      have "(objs[a := a']) ! g = objs ! g" using False by simp
      with Cons.IH [OF r d g] Cons.prems(4) s show ?thesis by auto
    qed
  qed
qed

subsection \<open>The creation of a lobby\<close>

lemma getNextMap_frame:
  "getNextMap h gm = Some (m, gm1) \<Longrightarrow>
   games gm1 = games gm \<and> objects gm1 = objects gm \<and> lastNewLobby gm1 = lastNewLobby gm"
  by (auto simp: getNextMap_def split: if_splits option.splits prod.splits)

lemma createLobby_due:
  assumes "now > lastNewLobby gm + gameCreationRate h"
    and "createLobby h now newID gm lobbies = Some (gm1, lobbies1, es1)"
  shows "\<exists>m gm0. getNextMap h (gm\<lparr>lastNewLobby := now\<rparr>) = Some (m, gm0) \<and>
           gm1 = gm0\<lparr>objects := objects gm @ [new_GameServer newID now True (publicConfig m)]\<rparr> \<and>
           lobbies1 = lobbies @ [length (objects gm)] \<and>
           es1 = [New_GameServer (length (objects gm))] \<and>
           games gm1 = games gm \<and> lastNewLobby gm1 = now"
proof -
  from assms obtain m gm0 where
    g: "getNextMap h (gm\<lparr>lastNewLobby := now\<rparr>) = Some (m, gm0)"
    by (auto simp: createLobby_def split: option.splits)
  from getNextMap_frame [OF g] have f: "games gm0 = games gm" "objects gm0 = objects gm"
    "lastNewLobby gm0 = now" by simp_all
  from assms g f show ?thesis by (auto simp: createLobby_def Let_def)
qed

lemma createLobby_not_due:
  assumes "\<not> now > lastNewLobby gm + gameCreationRate h"
  shows "createLobby h now newID gm lobbies = Some (gm, lobbies, [])"
  using assms by (simp add: createLobby_def)

lemma createLobby_frame:
  assumes "createLobby h now newID gm lobbies = Some (gm1, lobbies1, es1)"
  shows "games gm1 = games gm \<and> length (objects gm) \<le> length (objects gm1) \<and>
         (\<forall>g<length (objects gm). objects gm1 ! g = objects gm ! g) \<and>
         set lobbies1 \<subseteq> set lobbies \<union> {length (objects gm)} \<and>
         (\<forall>g\<in>set lobbies1. g \<in> set lobbies \<or> g < length (objects gm1)) \<and>
         calls_start es1 = [] \<and> calls_endGame es1 = []"
proof (cases "now > lastNewLobby gm + gameCreationRate h")
  case True
  from createLobby_due [OF True assms] show ?thesis by (auto simp: nth_append)
next
  case False
  from createLobby_not_due [OF False] assms show ?thesis by auto
qed

subsection \<open>The whole tick\<close>

lemma filter_eligible:
  assumes "wellFormed gm"
    and "\<forall>g<length (objects gm). objects gm1 ! g = objects gm ! g"
  shows "filter (\<lambda>g. \<not> hasStarted (objects gm1 ! g) \<and> isPublic (objects gm1 ! g))
           (gamesByPhase gm Active) = filter (eligible gm) (games gm)"
proof -
  have "\<forall>g\<in>set (games gm). objects gm1 ! g = objects gm ! g"
    using assms by (auto simp: wellFormed_def list_all_iff)
  then show ?thesis
    unfolding gamesByPhase_def filter_filter
    by (intro filter_cong) (auto simp: eligible_def)
qed

text \<open>What a tick that ends, by returning or by throwing, has done.\<close>

lemma tick_ended:
  assumes wf: "wellFormed gm"
    and t: "tick h now newID gm = Some (out, gm', es)"
  shows "\<exists>gm1 lobbies1 es1 objs2 es2.
           createLobby h now newID gm (gamesByPhase gm Lobby) = Some (gm1, lobbies1, es1) \<and>
           forEach_start (start h) (filter (eligible gm) (games gm)) (objects gm1) = (out, objs2, es2) \<and>
           (case out of
              Inl e \<Rightarrow> gm' = gm1\<lparr>objects := objs2\<rparr> \<and> es = es1 @ es2
            | Inr _ \<Rightarrow>
                (\<exists>objs3 es3.
                   forEach_endGame (endGame h) (gamesByPhase gm Finished) objs2 = (objs3, es3) \<and>
                   gm' = gm1\<lparr>games := lobbies1 @ gamesByPhase gm Active, objects := objs3\<rparr> \<and>
                   es = es1 @ es2 @ es3))"
proof -
  from t obtain gm1 lobbies1 es1 where
    c: "createLobby h now newID gm (gamesByPhase gm Lobby) = Some (gm1, lobbies1, es1)"
    by (auto simp: tick_def Let_def split: option.splits)
  from createLobby_frame [OF c] have same: "\<forall>g<length (objects gm). objects gm1 ! g = objects gm ! g"
    by simp
  note fe = filter_eligible [OF wf same]
  obtain out2 objs2 es2 where
    s: "forEach_start (start h) (filter (eligible gm) (games gm)) (objects gm1) = (out2, objs2, es2)"
    by (cases "forEach_start (start h) (filter (eligible gm) (games gm)) (objects gm1)")
  show ?thesis
  proof (cases out2)
    case (Inl e)
    with t c s fe have "out = Inl e" "gm' = gm1\<lparr>objects := objs2\<rparr>" "es = es1 @ es2"
      by (auto simp: tick_def Let_def)
    with c s Inl show ?thesis by auto
  next
    case (Inr u)
    obtain objs3 es3 where
      e: "forEach_endGame (endGame h) (gamesByPhase gm Finished) objs2 = (objs3, es3)"
      by (cases "forEach_endGame (endGame h) (gamesByPhase gm Finished) objs2")
    with t c s fe Inr have "out = Inr ()"
      "gm' = gm1\<lparr>games := lobbies1 @ gamesByPhase gm Active, objects := objs3\<rparr>"
      "es = es1 @ es2 @ es3"
      by (auto simp: tick_def Let_def)
    with c s e Inr show ?thesis by auto
  qed
qed

lemma bucket_phase:
  "g \<in> set (gamesByPhase gm p) \<Longrightarrow> g \<in> set (games gm) \<and> phase (objects gm ! g) = p"
  by (simp add: gamesByPhase_def)

lemma wellFormed_bound: "wellFormed gm \<Longrightarrow> g \<in> set (games gm) \<Longrightarrow> g < length (objects gm)"
  by (simp add: wellFormed_def list_all_iff)

lemma tick_returned:
  assumes wf: "wellFormed gm"
    and t: "tick h now newID gm = Some (Inr (), gm', es)"
  shows "\<exists>gm1 lobbies1 es1 objs2 es2 objs3 es3.
           createLobby h now newID gm (gamesByPhase gm Lobby) = Some (gm1, lobbies1, es1) \<and>
           forEach_start (start h) (filter (eligible gm) (games gm)) (objects gm1) = (Inr (), objs2, es2) \<and>
           forEach_endGame (endGame h) (gamesByPhase gm Finished) objs2 = (objs3, es3) \<and>
           gm' = gm1\<lparr>games := lobbies1 @ gamesByPhase gm Active, objects := objs3\<rparr> \<and>
           es = es1 @ es2 @ es3"
  using tick_ended [OF wf t] by auto

lemma tick_thrown:
  assumes wf: "wellFormed gm"
    and t: "tick h now newID gm = Some (Inl e, gm', es)"
  shows "\<exists>gm1 lobbies1 es1 objs2 es2.
           createLobby h now newID gm (gamesByPhase gm Lobby) = Some (gm1, lobbies1, es1) \<and>
           forEach_start (start h) (filter (eligible gm) (games gm)) (objects gm1) = (Inl e, objs2, es2) \<and>
           gm' = gm1\<lparr>objects := objs2\<rparr> \<and> es = es1 @ es2"
  using tick_ended [OF wf t] by auto

text \<open>The tick keeps the references of the live collection valid.\<close>

lemma tick_wellFormed:
  assumes wf: "wellFormed gm"
    and t: "tick h now newID gm = Some (out, gm', es)"
  shows "wellFormed gm'"
proof (cases out)
  case (Inl e)
  from tick_thrown [OF wf t [unfolded Inl]] obtain gm1 lobbies1 es1 objs2 es2 where
    c: "createLobby h now newID gm (gamesByPhase gm Lobby) = Some (gm1, lobbies1, es1)"
    and s: "forEach_start (start h) (filter (eligible gm) (games gm)) (objects gm1) = (Inl e, objs2, es2)"
    and gm': "gm' = gm1\<lparr>objects := objs2\<rparr>" by blast
  from createLobby_frame [OF c] forEach_start_length [OF s] gm' wf
  show ?thesis by (auto simp: wellFormed_def list_all_iff)
next
  case (Inr u)
  then have out: "out = Inr ()" by simp
  from tick_returned [OF wf t [unfolded out]] obtain gm1 lobbies1 es1 objs2 es2 objs3 es3 where
    c: "createLobby h now newID gm (gamesByPhase gm Lobby) = Some (gm1, lobbies1, es1)"
    and s: "forEach_start (start h) (filter (eligible gm) (games gm)) (objects gm1) = (Inr (), objs2, es2)"
    and e: "forEach_endGame (endGame h) (gamesByPhase gm Finished) objs2 = (objs3, es3)"
    and gm': "gm' = gm1\<lparr>games := lobbies1 @ gamesByPhase gm Active, objects := objs3\<rparr>" by blast
  have len: "length objs3 = length (objects gm1)"
    using forEach_start_length [OF s] forEach_endGame_length [OF e] by simp
  have "g < length objs3" if "g \<in> set (lobbies1 @ gamesByPhase gm Active)" for g
  proof -
    from that consider "g \<in> set (games gm)" | "g \<in> set lobbies1" "g \<notin> set (gamesByPhase gm Lobby)"
      by (auto dest: bucket_phase)
    then show ?thesis
    proof cases
      case 1
      with wf createLobby_frame [OF c] len show ?thesis
        by (auto dest: wellFormed_bound)
    next
      case 2
      with createLobby_frame [OF c] len show ?thesis by auto
    qed
  qed
  with gm' show ?thesis by (simp add: wellFormed_def list_all_iff)
qed

text \<open>The calls of \<open>start()\<close> and \<open>endGame()\<close> of a tick, and the sessions it constructs.\<close>

lemma createLobby_constructed:
  assumes "createLobby h now newID gm lobbies = Some (gm1, lobbies1, es1)"
  shows "constructed es1 =
           (if now > lastNewLobby gm + gameCreationRate h then [length (objects gm)] else []) \<and>
         lastNewLobby gm1 =
           (if now > lastNewLobby gm + gameCreationRate h then now else lastNewLobby gm)"
proof (cases "now > lastNewLobby gm + gameCreationRate h")
  case True
  from createLobby_due [OF True assms] True show ?thesis by auto
next
  case False
  from createLobby_not_due [OF False] assms False show ?thesis by auto
qed

lemma whole_is_prefix: "\<exists>k\<le>length xs. xs = take k xs"
  by (rule exI [of _ "length xs"]) simp

lemma tick_summary:
  assumes wf: "wellFormed gm"
    and t: "tick h now newID gm = Some (out, gm', es)"
  shows "(\<exists>k\<le>length (filter (eligible gm) (games gm)).
            calls_start es = take k (filter (eligible gm) (games gm))) \<and>
         (out = Inr () \<longrightarrow> calls_start es = filter (eligible gm) (games gm)) \<and>
         calls_endGame es = (case out of Inl e \<Rightarrow> [] | Inr _ \<Rightarrow> gamesByPhase gm Finished) \<and>
         constructed es =
           (if now > lastNewLobby gm + gameCreationRate h then [length (objects gm)] else []) \<and>
         lastNewLobby gm' =
           (if now > lastNewLobby gm + gameCreationRate h then now else lastNewLobby gm)"
proof (cases out)
  case (Inl e)
  from tick_thrown [OF wf t [unfolded Inl]] obtain gm1 lobbies1 es1 objs2 es2 where
    c: "createLobby h now newID gm (gamesByPhase gm Lobby) = Some (gm1, lobbies1, es1)"
    and s: "forEach_start (start h) (filter (eligible gm) (games gm)) (objects gm1) = (Inl e, objs2, es2)"
    and gm': "gm' = gm1\<lparr>objects := objs2\<rparr>" and es: "es = es1 @ es2" by blast
  from createLobby_frame [OF c] createLobby_constructed [OF c] forEach_start_effects [OF s]
  show ?thesis
    by (simp add: Inl es gm' calls_start_append calls_endGame_append constructed_append)
next
  case (Inr u)
  then have out: "out = Inr ()" by simp
  from tick_returned [OF wf t [unfolded out]] obtain gm1 lobbies1 es1 objs2 es2 objs3 es3 where
    c: "createLobby h now newID gm (gamesByPhase gm Lobby) = Some (gm1, lobbies1, es1)"
    and s: "forEach_start (start h) (filter (eligible gm) (games gm)) (objects gm1) = (Inr (), objs2, es2)"
    and e: "forEach_endGame (endGame h) (gamesByPhase gm Finished) objs2 = (objs3, es3)"
    and gm': "gm' = gm1\<lparr>games := lobbies1 @ gamesByPhase gm Active, objects := objs3\<rparr>"
    and es: "es = es1 @ es2 @ es3" by blast
  from createLobby_frame [OF c] createLobby_constructed [OF c] forEach_start_effects [OF s]
    forEach_endGame_effects [OF e]
  show ?thesis
    by (simp add: out es gm' calls_start_append calls_endGame_append constructed_append
          whole_is_prefix)
qed

subsection \<open>The example scheduler\<close>

lemma busy_fields:
  "games busyManager = [0, 1, 2, 3, 4, 5]"
  "lastNewLobby busyManager = 0" "mapsPlaylist busyManager = []" "randomState busyManager = 123"
  "length (objects busyManager) = 6"
  by (simp_all add: busyManager_def emptyManager_def)

lemma busy_buckets:
  "gamesByPhase busyManager Lobby = [0]"
  "gamesByPhase busyManager Active = [2, 4]"
  "gamesByPhase busyManager Finished = [1, 3, 5]"
  by (simp_all add: gamesByPhase_def busyManager_def emptyManager_def exampleSession_def
        new_GameServer_def)

lemma busy_wellFormed: "wellFormed busyManager"
  by (simp add: wellFormed_def busyManager_def emptyManager_def)

lemma busy_eligible: "filter (eligible busyManager) (games busyManager) = [2]"
  by (simp add: eligible_def busyManager_def emptyManager_def exampleSession_def
        new_GameServer_def)

lemma busy_finished_objects:
  "objects busyManager ! 3 = exampleSession ''f2'' True Finished"
  by (simp add: busyManager_def emptyManager_def)

lemma tick_busy_example:
  "tick exampleHost 500 ''n1'' busyManager =
     Some (Inr (), busyManager_ticked,
           [Call_start 2, Call_endGame 1, Call_endGame 3,
            ConsoleLog ''error ending game f2: '' (Error ''teardown failed''),
            Call_endGame 5])"
  by (simp add: tick_def busy_buckets createLobby_def busy_fields exampleHost_def)
     (simp add: busyManager_ticked_def busyManager_def emptyManager_def exampleSession_def
        new_GameServer_def)

lemma ticked_fields:
  "games busyManager_ticked = [0, 2, 4]" "lastNewLobby busyManager_ticked = 0"
  "objects busyManager_ticked ! 2 = (exampleSession ''a1'' True Active)\<lparr>hasStarted := True\<rparr>"
  by (simp_all add: busyManager_ticked_def busyManager_def emptyManager_def)

subsection \<open>Exceptions of \<open>start()\<close>\<close>

text \<open>
  C1 does not hold of the code. The loop over the finished sessions catches what
  \<open>endGame()\<close> throws; the loop over the sessions to start has no such guard. In the
  example scheduler, with a \<open>start()\<close> that throws, the tick throws at the first session
  it starts: it ends no finished session and leaves the live collection as it was.
\<close>

theorem tick_start_exception_escapes:
  "tick failingStartHost 500 ''n1'' busyManager =
     Some (Inl (Error ''start failed''), busyManager, [Call_start 2])"
  by (simp add: tick_def busy_buckets createLobby_def busy_fields failingStartHost_def
        exampleHost_def)
     (simp add: busyManager_def emptyManager_def exampleSession_def new_GameServer_def)

text \<open>An exception of \<open>endGame()\<close> never leaves the tick: the tick throws only what a
  \<open>start()\<close> threw.\<close>

lemma forEach_start_thrown:
  "forEach_start st gs objs = (Inl e, objs', es) \<Longrightarrow> \<exists>g. st g = Inl e"
  by (induction gs arbitrary: objs objs' es) (auto split: sum.splits prod.splits)

lemma tick_throws_only_start:
  assumes "wellFormed gm" and "tick h now newID gm = Some (Inl e, gm', es)"
  shows "\<exists>g. start h g = Inl e"
  using tick_thrown [OF assms] by (auto dest: forEach_start_thrown)

text \<open>Where no call of \<open>start()\<close> throws, the tick returns, whatever \<open>endGame()\<close> does.\<close>

lemma forEach_start_total:
  "distinct gs \<Longrightarrow> \<forall>g\<in>set gs. \<exists>g'. st (objs ! g) = Inr g' \<Longrightarrow>
   \<exists>objs' es. forEach_start st gs objs = (Inr (), objs', es)"
proof (induction gs arbitrary: objs)
  case Nil
  then show ?case by simp
next
  case (Cons a gs)
  from Cons.prems obtain a' where a: "st (objs ! a) = Inr a'" by auto
  have "\<forall>g\<in>set gs. \<exists>g'. st ((objs[a := a']) ! g) = Inr g'"
  proof
    fix g assume g: "g \<in> set gs"
    with Cons.prems(1) have "g \<noteq> a" by auto
    then have "(objs[a := a']) ! g = objs ! g" by simp
    with Cons.prems(2) g show "\<exists>g'. st ((objs[a := a']) ! g) = Inr g'" by simp
  qed
  with Cons.IH [of "objs[a := a']"] Cons.prems(1) obtain objs' es where
    "forEach_start st gs (objs[a := a']) = (Inr (), objs', es)" by auto
  with a show ?case by simp
qed

lemma tick_returns:
  assumes wf: "wellFormed gm"
    and d: "distinct (games gm)"
    and t: "tick h now newID gm = Some (out, gm', es)"
    and st: "\<forall>g\<in>set (games gm). eligible gm g \<longrightarrow> (\<exists>g'. start h (objects gm ! g) = Inr g')"
  shows "out = Inr ()"
proof -
  from tick_ended [OF wf t] obtain gm1 lobbies1 es1 objs2 es2 where
    c: "createLobby h now newID gm (gamesByPhase gm Lobby) = Some (gm1, lobbies1, es1)"
    and s: "forEach_start (start h) (filter (eligible gm) (games gm)) (objects gm1) = (out, objs2, es2)"
    by blast
  have "\<forall>g\<in>set (filter (eligible gm) (games gm)). \<exists>g'. start h (objects gm1 ! g) = Inr g'"
    using st createLobby_frame [OF c] wf by (auto dest: wellFormed_bound)
  moreover have "distinct (filter (eligible gm) (games gm))" using d by simp
  ultimately obtain objs' es' where
    "forEach_start (start h) (filter (eligible gm) (games gm)) (objects gm1) = (Inr (), objs', es')"
    using forEach_start_total by blast
  with s show ?thesis by simp
qed

subsection \<open>The finished sessions\<close>

text \<open>
  What the sweep does when the tick reaches it. Take a tick that ends, on a live
  collection without a repeated session, in which no call of \<open>start()\<close> throws.
  Whatever \<open>endGame()\<close> does, the tick returns; \<open>endGame()\<close> is called once on each
  session of the Finished bucket, in order; a session whose \<open>endGame()\<close> throws gets its
  line on the console and the loop goes on; no session of the Finished bucket is in the
  live collection afterwards, and no later tick calls \<open>endGame()\<close> on one.
\<close>

lemma tick_ends_finished:
  assumes wf: "wellFormed gm"
    and d: "distinct (games gm)"
    and t0: "tick h now newID gm = Some (out, gm', es)"
    and st: "\<forall>g\<in>set (games gm). eligible gm g \<longrightarrow> (\<exists>g'. start h (objects gm ! g) = Inr g')"
  shows "out = Inr () \<and>
         calls_endGame es = gamesByPhase gm Finished \<and>
         (\<forall>g\<in>set (gamesByPhase gm Finished). g \<notin> set (games gm')) \<and>
         (\<forall>g\<in>set (gamesByPhase gm Finished). \<forall>e. endGame h (objects gm ! g) = Inl e \<longrightarrow>
              ConsoleLog (''error ending game '' @ gid (objects gm ! g) @ '': '') e \<in> set es) \<and>
         (\<forall>now2 id2 out2 gm2 es2. tick h now2 id2 gm' = Some (out2, gm2, es2) \<longrightarrow>
              (\<forall>g\<in>set (gamesByPhase gm Finished). g \<notin> set (calls_endGame es2)))"
proof -
  have out: "out = Inr ()" by (rule tick_returns [OF wf d t0 st])
  with t0 have t: "tick h now newID gm = Some (Inr (), gm', es)" by simp
  from tick_returned [OF wf t] obtain gm1 lobbies1 es1 objs2 es2 objs3 es3 where
    c: "createLobby h now newID gm (gamesByPhase gm Lobby) = Some (gm1, lobbies1, es1)"
    and s: "forEach_start (start h) (filter (eligible gm) (games gm)) (objects gm1) = (Inr (), objs2, es2)"
    and e: "forEach_endGame (endGame h) (gamesByPhase gm Finished) objs2 = (objs3, es3)"
    and gm': "gm' = gm1\<lparr>games := lobbies1 @ gamesByPhase gm Active, objects := objs3\<rparr>"
    and es: "es = es1 @ es2 @ es3" by blast
  note cf = createLobby_frame [OF c]
  have calls: "calls_endGame es = gamesByPhase gm Finished"
    using tick_summary [OF wf t] by simp
  have absent: "g \<notin> set (games gm')" if f: "g \<in> set (gamesByPhase gm Finished)" for g
  proof -
    from bucket_phase [OF f] have g: "g \<in> set (games gm)" "phase (objects gm ! g) = Finished"
      by simp_all
    from wellFormed_bound [OF wf g(1)] have lt: "g < length (objects gm)" .
    have "g \<notin> set (gamesByPhase gm Lobby)" "g \<notin> set (gamesByPhase gm Active)"
      using g(2) by (auto dest: bucket_phase)
    moreover have "g \<noteq> length (objects gm)" using lt by simp
    ultimately show ?thesis using cf gm' by auto
  qed
  have logged: "ConsoleLog (''error ending game '' @ gid (objects gm ! g) @ '': '') e \<in> set es"
    if f: "g \<in> set (gamesByPhase gm Finished)" and th: "endGame h (objects gm ! g) = Inl e" for g e
  proof -
    from bucket_phase [OF f] have g: "g \<in> set (games gm)" "phase (objects gm ! g) = Finished"
      by simp_all
    from wellFormed_bound [OF wf g(1)] have lt: "g < length (objects gm)" .
    have "g \<notin> set (filter (eligible gm) (games gm))" using g(2) by (simp add: eligible_def)
    from forEach_start_others [OF s this] cf lt have o: "objs2 ! g = objects gm ! g" by simp
    have "distinct (gamesByPhase gm Finished)" using d by (simp add: gamesByPhase_def)
    from forEach_endGame_logged [OF e this f] th o
    have "ConsoleLog (''error ending game '' @ gid (objects gm ! g) @ '': '') e \<in> set es3"
      by simp
    with es show ?thesis by simp
  qed
  have later: "g \<notin> set (calls_endGame es2')"
    if t2: "tick h now2 id2 gm' = Some (out2, gm2, es2')"
      and f: "g \<in> set (gamesByPhase gm Finished)" for now2 id2 out2 gm2 es2' g
  proof -
    from tick_wellFormed [OF wf t] have wf': "wellFormed gm'" .
    from tick_summary [OF wf' t2]
    have "set (calls_endGame es2') \<subseteq> set (gamesByPhase gm' Finished)"
      by (cases out2) simp_all
    then have "set (calls_endGame es2') \<subseteq> set (games gm')" by (auto dest: bucket_phase)
    with absent [OF f] show ?thesis by blast
  qed
  from out calls absent logged later show ?thesis by blast
qed

lemma tick_ends_finished_example:
  "wellFormed busyManager \<and> distinct (games busyManager) \<and>
   start exampleHost (objects busyManager ! 2) =
     Inr ((exampleSession ''a1'' True Active)\<lparr>hasStarted := True\<rparr>) \<and>
   (\<exists>gm' es. tick exampleHost 500 ''n1'' busyManager = Some (Inr (), gm', es) \<and>
      calls_endGame es = [1, 3, 5] \<and> games gm' = [0, 2, 4] \<and>
      ConsoleLog ''error ending game f2: '' (Error ''teardown failed'') \<in> set es)"
proof -
  have d: "distinct (games busyManager)" by (simp add: busy_fields)
  have st: "\<forall>g\<in>set (games busyManager). eligible busyManager g \<longrightarrow>
              (\<exists>g'. start exampleHost (objects busyManager ! g) = Inr g')"
    by (simp add: exampleHost_def)
  from tick_ends_finished [OF busy_wellFormed d tick_busy_example st]
  have "calls_endGame [Call_start 2, Call_endGame 1, Call_endGame 3,
            ConsoleLog ''error ending game f2: '' (Error ''teardown failed''),
            Call_endGame 5] = gamesByPhase busyManager Finished" by blast
  moreover have "start exampleHost (objects busyManager ! 2) =
     Inr ((exampleSession ''a1'' True Active)\<lparr>hasStarted := True\<rparr>)"
    by (simp add: exampleHost_def busyManager_def emptyManager_def)
  ultimately show ?thesis using busy_wellFormed d
    by (simp add: tick_busy_example busy_buckets ticked_fields)
qed

lemma tick_failing_example:
  "tick failingStartHost 500 ''n1'' busyManager =
     Some (Inl (Error ''start failed''), busyManager, [Call_start 2])"
  by (simp add: tick_def busy_buckets createLobby_def busy_fields failingStartHost_def
        exampleHost_def)
     (simp add: busyManager_def emptyManager_def exampleSession_def new_GameServer_def)

text \<open>
  C2 does not hold of the code, by the defect of C1. The sweep over the finished
  sessions comes after the loop that starts sessions, and nothing catches what
  \<open>start()\<close> throws. In the example scheduler, with a \<open>start()\<close> that throws, the tick
  ends at the first session it starts: \<open>endGame()\<close> is called on none of the three
  finished sessions, and all three are still in the live collection after the tick.
\<close>

theorem tick_start_exception_skips_sweep:
  "gamesByPhase busyManager Finished = [1, 3, 5] \<and>
   (\<exists>e gm' es. tick failingStartHost 500 ''n1'' busyManager = Some (Inl e, gm', es) \<and>
      calls_endGame es = [] \<and> games gm' = [0, 1, 2, 3, 4, 5] \<and>
      gamesByPhase gm' Finished = [1, 3, 5])"
  by (simp add: tick_failing_example busy_buckets busy_fields)

subsection \<open>The sessions to start\<close>

text \<open>
  In a tick that ends, \<open>start()\<close> is called on sessions of the Active bucket that are
  public and not started, and on no other session: the calls follow the list of these
  sessions in its order, one call for each, and where the tick returns they reach the
  end of the list. Where \<open>start()\<close> sets the started-flag, each session started by a
  tick that returns has the flag set afterwards, and the next tick does not call
  \<open>start()\<close> on it.
\<close>

lemma tick_starts_eligible:
  assumes wf: "wellFormed gm"
    and t: "tick h now newID gm = Some (out, gm', es)"
  shows "(\<exists>k\<le>length (filter (eligible gm) (games gm)).
            calls_start es = take k (filter (eligible gm) (games gm))) \<and>
         (out = Inr () \<longrightarrow> calls_start es = filter (eligible gm) (games gm)) \<and>
         (distinct (games gm) \<longrightarrow> distinct (calls_start es)) \<and>
         ((\<forall>g g'. start h g = Inr g' \<longrightarrow> hasStarted g') \<and> out = Inr () \<longrightarrow>
            (\<forall>g\<in>set (calls_start es). hasStarted (objects gm' ! g)) \<and>
            (\<forall>now2 id2 out2 gm2 es2. tick h now2 id2 gm' = Some (out2, gm2, es2) \<longrightarrow>
               (\<forall>g\<in>set (calls_start es). g \<notin> set (calls_start es2))))"
proof -
  note sm = tick_summary [OF wf t]
  from sm obtain k where k: "calls_start es = take k (filter (eligible gm) (games gm))"
    by blast
  have dist: "distinct (calls_start es)" if "distinct (games gm)"
    unfolding k using that by (simp add: distinct_take)
  have flagged: "hasStarted (objects gm' ! g)"
    if flag: "\<forall>g g'. start h g = Inr g' \<longrightarrow> hasStarted g'" and out: "out = Inr ()"
      and g: "g \<in> set (calls_start es)" for g
  proof -
    from t out have t': "tick h now newID gm = Some (Inr (), gm', es)" by simp
    from tick_returned [OF wf t'] obtain gm1 lobbies1 es1 objs2 es2 objs3 es3 where
      c: "createLobby h now newID gm (gamesByPhase gm Lobby) = Some (gm1, lobbies1, es1)"
      and s: "forEach_start (start h) (filter (eligible gm) (games gm)) (objects gm1) = (Inr (), objs2, es2)"
      and e: "forEach_endGame (endGame h) (gamesByPhase gm Finished) objs2 = (objs3, es3)"
      and gm': "gm' = gm1\<lparr>games := lobbies1 @ gamesByPhase gm Active, objects := objs3\<rparr>"
      by blast
    from sm out g have el: "g \<in> set (games gm)" "eligible gm g" by auto
    from wellFormed_bound [OF wf el(1)] createLobby_frame [OF c]
    have lt: "g < length (objects gm1)" by simp
    have "g \<in> set (filter (eligible gm) (games gm))" using el by simp
    from forEach_start_started [of "start h", OF _ s this lt] flag
    have "hasStarted (objs2 ! g)" by blast
    moreover have "g \<notin> set (gamesByPhase gm Finished)"
      using el(2) by (auto simp: eligible_def dest: bucket_phase)
    from forEach_endGame_others [OF e this] have "objs3 ! g = objs2 ! g" .
    ultimately show ?thesis using gm' by simp
  qed
  have again: "g \<notin> set (calls_start es2)"
    if flag: "\<forall>g g'. start h g = Inr g' \<longrightarrow> hasStarted g'" and out: "out = Inr ()"
      and g: "g \<in> set (calls_start es)"
      and t2: "tick h now2 id2 gm' = Some (out2, gm2, es2)"
    for g now2 id2 out2 gm2 es2
  proof -
    from tick_wellFormed [OF wf t] have wf': "wellFormed gm'" .
    from tick_summary [OF wf' t2] obtain k2 where
      "calls_start es2 = take k2 (filter (eligible gm') (games gm'))" by blast
    then have "set (calls_start es2) \<subseteq> {x. eligible gm' x}"
      by (auto dest: in_set_takeD)
    with flagged [OF flag out g] show ?thesis by (auto simp: eligible_def)
  qed
  from sm dist flagged again show ?thesis by blast
qed

lemma tick_starts_eligible_example:
  "wellFormed busyManager \<and>
   (\<exists>gm' es. tick exampleHost 500 ''n1'' busyManager = Some (Inr (), gm', es) \<and>
      calls_start es = [2] \<and> hasStarted (objects gm' ! 2) \<and>
      (\<exists>out2 gm2 es2. tick exampleHost 600 ''n2'' gm' = Some (out2, gm2, es2) \<and>
          calls_start es2 = []))"
proof -
  have f: "\<forall>g g'. start exampleHost g = Inr g' \<longrightarrow> hasStarted g'"
    by (auto simp: exampleHost_def)
  have t2: "tick exampleHost 600 ''n2'' busyManager_ticked =
     Some (Inr (), busyManager_ticked, [])"
    by (simp add: tick_def createLobby_def exampleHost_def gamesByPhase_def
          busyManager_ticked_def busyManager_def emptyManager_def exampleSession_def
          new_GameServer_def)
  from tick_starts_eligible [OF busy_wellFormed tick_busy_example] f t2
  have "calls_start [Call_start 2, Call_endGame 1, Call_endGame 3,
            ConsoleLog ''error ending game f2: '' (Error ''teardown failed''),
            Call_endGame 5] = filter (eligible busyManager) (games busyManager)"
    and "hasStarted (objects busyManager_ticked ! 2)"
    by simp_all
  with busy_wellFormed show ?thesis
    by (simp add: tick_busy_example busy_eligible t2)
qed

lemma twoActive_fields:
  "games twoActiveManager = [0, 1]" "lastNewLobby twoActiveManager = 0"
  "gamesByPhase twoActiveManager Lobby = []"
  "gamesByPhase twoActiveManager Active = [0, 1]"
  "gamesByPhase twoActiveManager Finished = []"
  "filter (eligible twoActiveManager) (games twoActiveManager) = [0, 1]"
  by (simp_all add: gamesByPhase_def eligible_def twoActiveManager_def emptyManager_def
        exampleSession_def new_GameServer_def)

lemma tick_twoActive_example:
  "tick firstStartFailsHost now newID twoActiveManager =
     (if now > 1000
      then tick firstStartFailsHost now newID twoActiveManager
      else Some (Inl (Error ''start failed''), twoActiveManager, [Call_start 0]))"
  by (simp add: tick_def twoActive_fields createLobby_def firstStartFailsHost_def
        exampleHost_def)
     (simp add: twoActiveManager_def emptyManager_def exampleSession_def new_GameServer_def)

text \<open>
  C7 does not hold of the code, by the defect of C1. In a scheduler with two public
  sessions in the Active phase, neither started, and a \<open>start()\<close> that throws for the
  first and would set the flag of the second, the tick calls \<open>start()\<close> on the first
  session only: the exception ends the loop, and the second session is not started. The
  next tick calls \<open>start()\<close> on the first session again.
\<close>

theorem tick_start_exception_stops_starts:
  "filter (eligible twoActiveManager) (games twoActiveManager) = [0, 1] \<and>
   start firstStartFailsHost (objects twoActiveManager ! 1) =
     Inr ((exampleSession ''a3'' True Active)\<lparr>hasStarted := True\<rparr>) \<and>
   (\<exists>e gm' es. tick firstStartFailsHost 500 ''n1'' twoActiveManager = Some (Inl e, gm', es) \<and>
      calls_start es = [0] \<and>
      (\<exists>e2 gm2 es2. tick firstStartFailsHost 600 ''n2'' gm' = Some (Inl e2, gm2, es2) \<and>
          calls_start es2 = [0]))"
proof -
  have s: "start firstStartFailsHost (objects twoActiveManager ! 1) =
     Inr ((exampleSession ''a3'' True Active)\<lparr>hasStarted := True\<rparr>)"
    by (simp add: firstStartFailsHost_def exampleHost_def twoActiveManager_def emptyManager_def
          exampleSession_def new_GameServer_def)
  have t: "tick firstStartFailsHost 500 ''n1'' twoActiveManager =
     Some (Inl (Error ''start failed''), twoActiveManager, [Call_start 0])"
    "tick firstStartFailsHost 600 ''n2'' twoActiveManager =
     Some (Inl (Error ''start failed''), twoActiveManager, [Call_start 0])"
    by (subst tick_twoActive_example, simp)+
  from s t twoActive_fields(6) show ?thesis by (simp del: filter.simps)
qed


subsection \<open>The creation of public lobbies\<close>









section \<open>Routing by identifier\<close>

lemma find_firstMatch:
  "List.find (\<lambda>g. gid (objects gm ! g) = gameID) (games gm) = Some g \<longleftrightarrow> firstMatch gm gameID g"
  unfolding find_Some_iff firstMatch_def by auto

lemma find_no_match:
  "List.find (\<lambda>g. gid (objects gm ! g) = gameID) (games gm) = None \<longleftrightarrow>
   (\<forall>g\<in>set (games gm). gid (objects gm ! g) \<noteq> gameID)"
  unfolding find_None_iff by auto

lemma firstMatch_in_games: "firstMatch gm gameID g \<Longrightarrow> g \<in> set (games gm) \<and> gid (objects gm ! g) = gameID"
  unfolding firstMatch_def by auto

lemma firstMatch_unique: "firstMatch gm gameID g \<Longrightarrow> firstMatch gm gameID g' \<Longrightarrow> g = g'"
  unfolding find_firstMatch [symmetric] by simp

lemma firstMatch_exists:
  "\<exists>g\<in>set (games gm). gid (objects gm ! g) = gameID \<Longrightarrow> \<exists>g. firstMatch gm gameID g"
proof -
  assume "\<exists>g\<in>set (games gm). gid (objects gm ! g) = gameID"
  then have "List.find (\<lambda>g. gid (objects gm ! g) = gameID) (games gm) \<noteq> None"
    by (simp add: find_no_match)
  then show ?thesis by (auto simp: find_firstMatch)
qed

lemma busy_firstMatch: "firstMatch busyManager ''a2'' 4" "firstMatch busyManager ''f3'' 5"
  unfolding find_firstMatch [symmetric]
  by (simp_all add: busyManager_def emptyManager_def exampleSession_def new_GameServer_def)

lemma busy_no_match: "\<forall>g\<in>set (games busyManager). gid (objects busyManager ! g) \<noteq> ''zz''"
  by (simp add: busyManager_def emptyManager_def exampleSession_def new_GameServer_def)

subsection \<open>Joining\<close>

text \<open>
  C9. \<open>addClient\<close> returns; it returns false and changes nothing where no session of the
  live collection has the identifier, and otherwise it returns true, having passed the
  client to the first session with the identifier and touched no other.
\<close>

theorem addClient_routes:
  "((\<forall>g\<in>set (games gm). gid (objects gm ! g) \<noteq> gameID) \<longrightarrow>
      addClient client gameID lastTurn gm = (Inr False, gm, [])) \<and>
   ((\<exists>g\<in>set (games gm). gid (objects gm ! g) = gameID) \<longrightarrow>
      (\<exists>g. firstMatch gm gameID g \<and>
           addClient client gameID lastTurn gm =
             (Inr True,
              gm\<lparr>objects := (objects gm)[g := GameServer_addClient client lastTurn (objects gm ! g)]\<rparr>,
              [])))"
proof (intro conjI impI)
  assume "\<forall>g\<in>set (games gm). gid (objects gm ! g) \<noteq> gameID"
  then have "List.find (\<lambda>g. gid (objects gm ! g) = gameID) (games gm) = None"
    by (simp add: find_no_match)
  then show "addClient client gameID lastTurn gm = (Inr False, gm, [])"
    by (simp add: addClient_def)
next
  assume "\<exists>g\<in>set (games gm). gid (objects gm ! g) = gameID"
  from firstMatch_exists [OF this] obtain g where g: "firstMatch gm gameID g" ..
  then have "List.find (\<lambda>g. gid (objects gm ! g) = gameID) (games gm) = Some g"
    by (simp add: find_firstMatch)
  then have "addClient client gameID lastTurn gm =
             (Inr True,
              gm\<lparr>objects := (objects gm)[g := GameServer_addClient client lastTurn (objects gm ! g)]\<rparr>,
              [])"
    by (simp add: addClient_def)
  with g show "\<exists>g. firstMatch gm gameID g \<and>
           addClient client gameID lastTurn gm =
             (Inr True,
              gm\<lparr>objects := (objects gm)[g := GameServer_addClient client lastTurn (objects gm ! g)]\<rparr>,
              [])" by blast
qed

theorem addClient_routes_witness:
  "addClient ''c1'' ''zz'' 7 busyManager = (Inr False, busyManager, []) \<and>
   firstMatch busyManager ''a2'' 4 \<and>
   addClient ''c1'' ''a2'' 7 busyManager =
     (Inr True,
      busyManager\<lparr>objects := (objects busyManager)
         [4 := (exampleSession ''a2'' False Active)\<lparr>clients := [(''c1'', 7)]\<rparr>]\<rparr>,
      [])"
proof -
  have ex: "\<exists>g\<in>set (games busyManager). gid (objects busyManager ! g) = ''a2''"
    using busy_firstMatch(1) by (auto dest: firstMatch_in_games)
  from addClient_routes [of busyManager "''a2''" "''c1''" 7] ex obtain g where
    g: "firstMatch busyManager ''a2'' g"
    and a: "addClient ''c1'' ''a2'' 7 busyManager =
             (Inr True,
              busyManager\<lparr>objects := (objects busyManager)
                 [g := GameServer_addClient ''c1'' 7 (objects busyManager ! g)]\<rparr>, [])"
    by blast
  from firstMatch_unique [OF g busy_firstMatch(1)] have g4: "g = 4" .
  have "GameServer_addClient ''c1'' 7 (objects busyManager ! 4) =
          (exampleSession ''a2'' False Active)\<lparr>clients := [(''c1'', 7)]\<rparr>"
    by (simp add: GameServer_addClient_def busyManager_def emptyManager_def exampleSession_def
          new_GameServer_def)
  with a g4 busy_firstMatch(1) addClient_routes [of busyManager "''zz''" "''c1''" 7] busy_no_match
  show ?thesis by simp
qed

subsection \<open>Updating the configuration\<close>

text \<open>
  C8. \<open>updateGameConfig\<close> returns. Where no session of the live collection has the
  identifier, or the first one that has it is public, it writes a warning and changes
  nothing; where that session is private it replaces the configuration of that session
  and nothing else. Only in the last case does the state change.
\<close>

theorem updateGameConfig_rejects_or_replaces:
  "\<exists>gm' es. updateGameConfig gameID cfg gm = (Inr (), gm', es) \<and>
     ((\<forall>g\<in>set (games gm). gid (objects gm ! g) \<noteq> gameID) \<longrightarrow>
        gm' = gm \<and> es = [ConsoleWarn (''game '' @ gameID @ '' not found'')]) \<and>
     (\<forall>g. firstMatch gm gameID g \<and> isPublic (objects gm ! g) \<longrightarrow>
        gm' = gm \<and> es = [ConsoleWarn (''cannot update public game '' @ gameID)]) \<and>
     (\<forall>g. firstMatch gm gameID g \<and> \<not> isPublic (objects gm ! g) \<longrightarrow>
        gm' = gm\<lparr>objects := (objects gm)[g := (objects gm ! g)\<lparr>gameConfig := cfg\<rparr>]\<rparr> \<and> es = []) \<and>
     (gm' \<noteq> gm \<longrightarrow> (\<exists>g. firstMatch gm gameID g \<and> \<not> isPublic (objects gm ! g)))"
proof (cases "List.find (\<lambda>g. gid (objects gm ! g) = gameID) (games gm)")
  case None
  then have no: "\<forall>g\<in>set (games gm). gid (objects gm ! g) \<noteq> gameID"
    by (simp add: find_no_match)
  then have "\<not> firstMatch gm gameID g" for g by (auto dest: firstMatch_in_games)
  with None show ?thesis by (simp add: updateGameConfig_def)
next
  case (Some g0)
  then have f: "firstMatch gm gameID g0" by (simp add: find_firstMatch)
  then have ex: "\<not> (\<forall>g\<in>set (games gm). gid (objects gm ! g) \<noteq> gameID)"
    by (auto dest: firstMatch_in_games)
  have u: "g = g0" if "firstMatch gm gameID g" for g
    using that f by (rule firstMatch_unique)
  show ?thesis
  proof (cases "isPublic (objects gm ! g0)")
    case True
    have r: "updateGameConfig gameID cfg gm =
               (Inr (), gm, [ConsoleWarn (''cannot update public game '' @ gameID)])"
      using Some True by (simp add: updateGameConfig_def)
    show ?thesis
    proof (intro exI conjI)
      show "updateGameConfig gameID cfg gm =
               (Inr (), gm, [ConsoleWarn (''cannot update public game '' @ gameID)])"
        by (rule r)
      show "(\<forall>g\<in>set (games gm). gid (objects gm ! g) \<noteq> gameID) \<longrightarrow>
              gm = gm \<and> [ConsoleWarn (''cannot update public game '' @ gameID)] =
                [ConsoleWarn (''game '' @ gameID @ '' not found'')]"
        using ex by blast
      show "\<forall>g. firstMatch gm gameID g \<and> isPublic (objects gm ! g) \<longrightarrow>
              gm = gm \<and> [ConsoleWarn (''cannot update public game '' @ gameID)] =
                [ConsoleWarn (''cannot update public game '' @ gameID)]"
        by blast
      show "\<forall>g. firstMatch gm gameID g \<and> \<not> isPublic (objects gm ! g) \<longrightarrow>
              gm = gm\<lparr>objects := (objects gm)[g := (objects gm ! g)\<lparr>gameConfig := cfg\<rparr>]\<rparr> \<and>
              [ConsoleWarn (''cannot update public game '' @ gameID)] = []"
        using u True by blast
      show "gm \<noteq> gm \<longrightarrow> (\<exists>g. firstMatch gm gameID g \<and> \<not> isPublic (objects gm ! g))"
        by blast
    qed
  next
    case False
    let ?gm' = "gm\<lparr>objects := (objects gm)[g0 := (objects gm ! g0)\<lparr>gameConfig := cfg\<rparr>]\<rparr>"
    have r: "updateGameConfig gameID cfg gm = (Inr (), ?gm', [])"
      using Some False by (simp add: updateGameConfig_def GameServer_updateGameConfig_def)
    show ?thesis
    proof (intro exI conjI)
      show "updateGameConfig gameID cfg gm = (Inr (), ?gm', [])" by (rule r)
      show "(\<forall>g\<in>set (games gm). gid (objects gm ! g) \<noteq> gameID) \<longrightarrow>
              ?gm' = gm \<and> [] = [ConsoleWarn (''game '' @ gameID @ '' not found'')]"
        using ex by blast
      show "\<forall>g. firstMatch gm gameID g \<and> isPublic (objects gm ! g) \<longrightarrow>
              ?gm' = gm \<and> [] = [ConsoleWarn (''cannot update public game '' @ gameID)]"
        using u False by blast
      show "\<forall>g. firstMatch gm gameID g \<and> \<not> isPublic (objects gm ! g) \<longrightarrow>
              ?gm' = gm\<lparr>objects := (objects gm)[g := (objects gm ! g)\<lparr>gameConfig := cfg\<rparr>]\<rparr> \<and>
              [] = []"
        using u by blast
      show "?gm' \<noteq> gm \<longrightarrow> (\<exists>g. firstMatch gm gameID g \<and> \<not> isPublic (objects gm ! g))"
        using f False by blast
    qed
  qed
qed

theorem updateGameConfig_rejects_or_replaces_witness:
  "updateGameConfig ''zz'' (publicConfig None) busyManager =
     (Inr (), busyManager, [ConsoleWarn ''game zz not found'']) \<and>
   updateGameConfig ''a1'' (publicConfig None) busyManager =
     (Inr (), busyManager, [ConsoleWarn ''cannot update public game a1'']) \<and>
   updateGameConfig ''a2'' (publicConfig None) busyManager =
     (Inr (),
      busyManager\<lparr>objects := (objects busyManager)
         [4 := (exampleSession ''a2'' False Active)\<lparr>gameConfig := publicConfig None\<rparr>]\<rparr>,
      [])"
proof -
  have a1: "firstMatch busyManager ''a1'' 2" "isPublic (objects busyManager ! 2)"
    unfolding find_firstMatch [symmetric]
    by (simp_all add: busyManager_def emptyManager_def exampleSession_def new_GameServer_def)
  have a2: "\<not> isPublic (objects busyManager ! 4)"
    "objects busyManager ! 4 = exampleSession ''a2'' False Active"
    by (simp_all add: busyManager_def emptyManager_def exampleSession_def new_GameServer_def)
  from updateGameConfig_rejects_or_replaces [of "''zz''" "publicConfig None" busyManager]
    busy_no_match
  have 1: "updateGameConfig ''zz'' (publicConfig None) busyManager =
     (Inr (), busyManager, [ConsoleWarn ''game zz not found''])" by auto
  from updateGameConfig_rejects_or_replaces [of "''a1''" "publicConfig None" busyManager] a1
  have 2: "updateGameConfig ''a1'' (publicConfig None) busyManager =
     (Inr (), busyManager, [ConsoleWarn ''cannot update public game a1''])" by auto
  from updateGameConfig_rejects_or_replaces [of "''a2''" "publicConfig None" busyManager]
    busy_firstMatch(1) a2
  have 3: "updateGameConfig ''a2'' (publicConfig None) busyManager =
     (Inr (),
      busyManager\<lparr>objects := (objects busyManager)
         [4 := (exampleSession ''a2'' False Active)\<lparr>gameConfig := publicConfig None\<rparr>]\<rparr>,
      [])" by auto
  from 1 2 3 show ?thesis by simp
qed

text \<open>
  C10. The update of a private session does not look at its phase: whatever phase the
  first session with the identifier is in, Lobby, Active or Finished, a private one gets
  the new configuration and stays in its phase.
\<close>

theorem updateGameConfig_any_phase:
  assumes f: "firstMatch gm gameID g"
    and priv: "\<not> isPublic (objects gm ! g)"
    and lt: "g < length (objects gm)"
  shows "\<exists>gm'. updateGameConfig gameID cfg
                 (gm\<lparr>objects := (objects gm)[g := (objects gm ! g)\<lparr>phase := p\<rparr>]\<rparr>) =
                 (Inr (), gm', []) \<and>
               gameConfig (objects gm' ! g) = cfg \<and> phase (objects gm' ! g) = p \<and>
               games gm' = games gm"
proof -
  let ?objs = "(objects gm)[g := (objects gm ! g)\<lparr>phase := p\<rparr>]"
  let ?gm = "gm\<lparr>objects := ?objs\<rparr>"
  have same: "gid (?objs ! r) = gid (objects gm ! r)" for r
    using lt by (cases "r = g") simp_all
  have "List.find (\<lambda>r. gid (objects ?gm ! r) = gameID) (games ?gm) =
        List.find (\<lambda>r. gid (objects gm ! r) = gameID) (games gm)"
    by (simp add: same)
  with f have "List.find (\<lambda>r. gid (objects ?gm ! r) = gameID) (games ?gm) = Some g"
    by (simp add: find_firstMatch)
  moreover have "\<not> isPublic (objects ?gm ! g)" using priv lt by simp
  ultimately have "updateGameConfig gameID cfg ?gm =
      (Inr (), ?gm\<lparr>objects := (objects ?gm)[g := GameServer_updateGameConfig cfg (objects ?gm ! g)]\<rparr>, [])"
    by (simp add: updateGameConfig_def)
  then show ?thesis using lt by (simp add: GameServer_updateGameConfig_def)
qed

theorem updateGameConfig_any_phase_witness:
  "firstMatch busyManager ''f3'' 5 \<and> \<not> isPublic (objects busyManager ! 5) \<and>
   phase (objects busyManager ! 5) = Finished \<and>
   (\<exists>gm'. updateGameConfig ''f3'' (publicConfig None) busyManager = (Inr (), gm', []) \<and>
      gameConfig (objects gm' ! 5) = publicConfig None \<and> phase (objects gm' ! 5) = Finished)"
proof -
  have p: "\<not> isPublic (objects busyManager ! 5)" "phase (objects busyManager ! 5) = Finished"
    "5 < length (objects busyManager)"
    by (simp_all add: busyManager_def emptyManager_def exampleSession_def new_GameServer_def)
  have same: "busyManager\<lparr>objects := (objects busyManager)
                 [5 := (objects busyManager ! 5)\<lparr>phase := Finished\<rparr>]\<rparr> = busyManager"
    by (simp add: busyManager_def emptyManager_def exampleSession_def new_GameServer_def)
  from updateGameConfig_any_phase [OF busy_firstMatch(2) p(1) p(3), of "publicConfig None" Finished]
  show ?thesis using busy_firstMatch(2) p by (auto simp: same)
qed

end
